theory Spec2Isabelle
  imports Complex_Main
begin

section \<open>Scalars, tensors and faults\<close>

text \<open>
  The solver is a template over \<open>scalar_t\<close> (float or double). The integration rules are
  modelled over the reals: the order of the arithmetic operations is the one of the source,
  IEEE rounding and the promotion of the \<open>float\<close> step size to \<open>scalar_t\<close> are not
  modelled. The lane kernels are polymorphic in the scalar type and use nothing of it but
  its addition.

  The three tensors of a call live in device memory, each a contiguous buffer of its own, as
  the \<open>RestrictPtrTraits\<close> of the accessors declare. The state vector and the forcing
  vector are the lists of their elements. The coupling matrix is the list of its rows, all
  of one length; its buffer is their concatenation, row after row.

  A packed accessor computes an address from its indices and checks no bound. A read or
  write outside the buffer of a tensor is undefined behaviour in the source and the fault
  \<open>OutOfBounds\<close> in the model. Invoking an empty \<open>std::function\<close> is the fault
  \<open>BadFunctionCall\<close>.
\<close>

datatype fault = OutOfBounds | BadFunctionCall

record 'a tensors =
  F_a :: "'a list list"
  x0_a :: "'a list"
  g_a :: "'a list"

type_synonym ('a, 'd) method_t = "'a \<Rightarrow> 'a \<Rightarrow> 'a \<Rightarrow> 'd \<Rightarrow> 'a"

text \<open>
  \<open>F_a[i][j]\<close> is the element at \<open>i * stride0 + j * stride1\<close> of the buffer; for a
  contiguous matrix \<open>stride0\<close> is the number of columns and \<open>stride1\<close> is 1. So an index
  pair outside the shape of the matrix may still address an element of its buffer. A matrix
  that is a view with other strides (an expanded tensor) has the same elements \<open>F[i][j]\<close>
  inside its shape.
\<close>

definition columns :: "'a list list \<Rightarrow> nat" where
  "columns F = (case F of [] \<Rightarrow> 0 | row # _ \<Rightarrow> length row)"

definition offset :: "'a list list \<Rightarrow> nat \<Rightarrow> nat \<Rightarrow> nat" where
  "offset F i j = i * columns F + j"

section \<open>Machine integers\<close>

text \<open>
  \<open>unsigned\<close> is the result of an \<open>unsigned int\<close> operation, \<open>to_int\<close> the conversion of
  an unsigned or wider value to the 32-bit \<open>int\<close> (two's complement), \<open>to_size_t\<close> the
  conversion of an \<open>int\<close> to the 64-bit \<open>size_t\<close>, as in the comparison
  \<open>tid < x0_size\<close> and in the index of an accessor. Sizes of tensors are below \<open>2^63\<close>
  and are natural numbers here.
\<close>

definition unsigned :: "nat \<Rightarrow> nat" where
  "unsigned n = n mod 2 ^ 32"

definition to_int :: "nat \<Rightarrow> int" where
  "to_int n = (if n mod 2 ^ 32 < 2 ^ 31 then int (n mod 2 ^ 32) else int (n mod 2 ^ 32) - 2 ^ 32)"

definition to_size_t :: "int \<Rightarrow> nat" where
  "to_size_t i = nat (i mod 2 ^ 64)"

text \<open>
  \<open>int tid = blockIdx.x * blockDim.x + threadIdx.x\<close>, the first line of each kernel: the
  three operands are \<open>unsigned int\<close>, the result is stored in an \<open>int\<close>.
\<close>

definition thread_id :: "nat \<Rightarrow> nat \<Rightarrow> nat \<Rightarrow> int" where
  "thread_id blockIdx blockDim threadIdx =
     to_int (unsigned (unsigned (blockIdx * blockDim) + threadIdx))"

section \<open>Integration rules\<close>

definition euler_method :: "(real, real) method_t" where
  "euler_method F_in x0_in g_in dt = (F_in * g_in) * dt"

definition rk4_method :: "(real, real) method_t" where
  "rk4_method F_in x0_in g_in dt =
     (let f1 = (F_in * g_in) * dt;
          c2 = dt * f1 / 2;
          f2 = (F_in * (g_in + c2)) * (dt / 2);
          c3 = dt * f2 / 2;
          f3 = (F_in * (g_in + c3)) * (dt / 2);
          c4 = dt * f3;
          f4 = (F_in * (g_in + c4)) * dt
      in (f1 + 2 * f2 + 2 * f3 + f4) / 6)"

text \<open>
  The formulas of the specification, written from its words (section 4.1), for comparison
  with the two definitions above.
\<close>

definition euler_spec :: "real \<Rightarrow> real \<Rightarrow> real \<Rightarrow> real" where
  "euler_spec F_value g_value dt = F_value * g_value * dt"

definition rk4_spec :: "real \<Rightarrow> real \<Rightarrow> real \<Rightarrow> real" where
  "rk4_spec F_value g_value dt =
     (let f1 = F_value * g_value * dt;
          c2 = dt * f1 / 2;
          f2 = F_value * (g_value + c2) * (dt / 2);
          c3 = dt * f2 / 2;
          f3 = F_value * (g_value + c3) * (dt / 2);
          c4 = dt * f3;
          f4 = F_value * (g_value + c4) * dt
      in (f1 + 2 * f2 + 2 * f3 + f4) / 6)"

section \<open>The per-lane loops\<close>

text \<open>
  \<open>for (int i = 0; i < steps; i++) body\<close>: the loop counter runs from \<open>i\<close> up to
  \<open>steps\<close>; a negative or zero \<open>steps\<close> runs the body not at all. The counter never
  passes \<open>steps\<close> and so does not wrap. A fault in the body ends the loop.
\<close>

function for_loop :: "('s \<Rightarrow> fault + 's) \<Rightarrow> int \<Rightarrow> int \<Rightarrow> 's \<Rightarrow> fault + 's" where
  "for_loop body steps i s =
     (if i < steps then
        (case body s of
           Inl e \<Rightarrow> Inl e
         | Inr s' \<Rightarrow> for_loop body steps (i + 1) s')
      else Inr s)"
  by pat_completeness auto
termination
  by (relation "measure (\<lambda>(body, steps, i, s). nat (steps - i))") auto

declare for_loop.simps [simp del]

text \<open>
  The loop body of \<open>general_solver\<close> and of \<open>compact_diagonal_solver\<close>:
  \<open>x0_in = x0_in + method(F_in, x0_in, g_in, dt)\<close>. The method is \<open>None\<close> when the
  \<open>std::function\<close> is empty.
\<close>

definition lane_body ::
  "('a::plus, 'd) method_t option \<Rightarrow> 'a \<Rightarrow> 'a \<Rightarrow> 'd \<Rightarrow> 'a \<Rightarrow> fault + 'a" where
  "lane_body method F_in g_in dt x0_in =
     (case method of
        None \<Rightarrow> Inl BadFunctionCall
      | Some f \<Rightarrow> Inr (x0_in + f F_in x0_in g_in dt))"

text \<open>
  The loop body of \<open>compact_skew_symmetric_solver\<close>: the second assignment reads the
  \<open>x0_in_1\<close> that the first one has just written.
\<close>

definition block_body ::
  "('a::plus, 'd) method_t option \<Rightarrow> 'a \<Rightarrow> 'a \<Rightarrow> 'a \<Rightarrow> 'a \<Rightarrow> 'a \<Rightarrow> 'a \<Rightarrow> 'd \<Rightarrow>
   'a \<times> 'a \<Rightarrow> fault + 'a \<times> 'a" where
  "block_body method UL_v UR_v LL_v LR_v g_in_1 g_in_2 dt s =
     (case method of
        None \<Rightarrow> Inl BadFunctionCall
      | Some f \<Rightarrow>
          (let x0_in_1 = fst s + f UL_v (fst s) g_in_1 dt + f UR_v (snd s) g_in_2 dt;
               x0_in_2 = x0_in_1 + f LL_v x0_in_1 g_in_1 dt + f LR_v (snd s) g_in_2 dt
           in Inr (x0_in_1, x0_in_2)))"

section \<open>The three kernels, one thread each\<close>

text \<open>
  In each kernel \<open>tid\<close> is the \<open>int\<close> of the source and \<open>i\<close> its conversion to
  \<open>size_t\<close>, which the comparison with \<open>x0_size\<close> and the accessors take. The inner
  condition says that every address the thread computes is inside its buffer.
\<close>

definition general_solver ::
  "('a::plus, 'd) method_t option \<Rightarrow> 'd \<Rightarrow> int \<Rightarrow> nat \<Rightarrow> nat \<Rightarrow> nat \<Rightarrow> nat \<Rightarrow> 'a tensors \<Rightarrow>
   fault + 'a tensors" where
  "general_solver method dt steps x0_size blockIdx blockDim threadIdx m =
     (let tid = thread_id blockIdx blockDim threadIdx;
          i = to_size_t tid
      in if i < x0_size then
           (if i < length (x0_a m) \<and> i < length (g_a m) \<and>
               offset (F_a m) i i < length (concat (F_a m)) then
              (let x0_in = x0_a m ! i;
                   g_in = g_a m ! i;
                   F_in = concat (F_a m) ! offset (F_a m) i i
               in case for_loop (lane_body method F_in g_in dt) steps 0 x0_in of
                    Inl e \<Rightarrow> Inl e
                  | Inr x0_out \<Rightarrow> Inr (m\<lparr>x0_a := (x0_a m)[i := x0_out]\<rparr>))
            else Inl OutOfBounds)
         else Inr m)"

definition compact_diagonal_solver ::
  "('a::plus, 'd) method_t option \<Rightarrow> 'd \<Rightarrow> int \<Rightarrow> nat \<Rightarrow> nat \<Rightarrow> nat \<Rightarrow> nat \<Rightarrow> 'a tensors \<Rightarrow>
   fault + 'a tensors" where
  "compact_diagonal_solver method dt steps x0_size blockIdx blockDim threadIdx m =
     (let tid = thread_id blockIdx blockDim threadIdx;
          i = to_size_t tid
      in if i < x0_size then
           (if i < length (x0_a m) \<and> i < length (g_a m) \<and>
               offset (F_a m) 0 0 < length (concat (F_a m)) then
              (let x0_in = x0_a m ! i;
                   g_in = g_a m ! i;
                   F_in = concat (F_a m) ! offset (F_a m) 0 0
               in case for_loop (lane_body method F_in g_in dt) steps 0 x0_in of
                    Inl e \<Rightarrow> Inl e
                  | Inr x0_out \<Rightarrow> Inr (m\<lparr>x0_a := (x0_a m)[i := x0_out]\<rparr>))
            else Inl OutOfBounds)
         else Inr m)"

definition compact_skew_symmetric_solver ::
  "('a::plus, 'd) method_t option \<Rightarrow> 'd \<Rightarrow> int \<Rightarrow> nat \<Rightarrow> nat \<Rightarrow> nat \<Rightarrow> nat \<Rightarrow> 'a tensors \<Rightarrow>
   fault + 'a tensors" where
  "compact_skew_symmetric_solver method dt steps x0_size blockIdx blockDim threadIdx m =
     (let tid = thread_id blockIdx blockDim threadIdx;
          i = to_size_t tid
      in if i < x0_size div 2 then
           (if i + x0_size div 2 < length (g_a m) \<and>
               i + x0_size div 2 < length (x0_a m) \<and>
               offset (F_a m) 0 0 < length (concat (F_a m)) \<and>
               offset (F_a m) 0 1 < length (concat (F_a m)) \<and>
               offset (F_a m) 1 0 < length (concat (F_a m)) \<and>
               offset (F_a m) 1 1 < length (concat (F_a m)) then
              (let g_in_1 = g_a m ! i;
                   g_in_2 = g_a m ! (i + x0_size div 2);
                   x0_in_1 = x0_a m ! i;
                   x0_in_2 = x0_a m ! (i + x0_size div 2);
                   UL_v = concat (F_a m) ! offset (F_a m) 0 0;
                   UR_v = concat (F_a m) ! offset (F_a m) 0 1;
                   LL_v = concat (F_a m) ! offset (F_a m) 1 0;
                   LR_v = concat (F_a m) ! offset (F_a m) 1 1
               in case for_loop (block_body method UL_v UR_v LL_v LR_v g_in_1 g_in_2 dt)
                         steps 0 (x0_in_1, x0_in_2) of
                    Inl e \<Rightarrow> Inl e
                  | Inr s \<Rightarrow>
                      Inr (m\<lparr>x0_a := (x0_a m)[i := fst s, i + x0_size div 2 := snd s]\<rparr>))
            else Inl OutOfBounds)
         else Inr m)"

section \<open>Launching a kernel\<close>

text \<open>
  \<open>kernel<<<blocks, threadsPerBlock>>>\<close> starts \<open>blocks * threadsPerBlock\<close> threads, one
  for each \<open>threadIdx\<close> below \<open>blockDim\<close> in each block \<open>blockIdx\<close> below \<open>blocks\<close>.
  A grid of no block, or of more blocks than the \<open>2^31 - 1\<close> that the device takes (what a
  negative \<open>int blocks\<close> converts to), is refused: no thread runs, and \<open>solve_cuda\<close> does
  not look at the error of the launch. The model runs the threads one after the other,
  block by block; the first thread that faults ends the run, and the memory is then the
  one the threads before it have left.
\<close>

definition grid_threads :: "nat \<Rightarrow> nat \<Rightarrow> (nat \<times> nat) list" where
  "grid_threads blocks blockDim =
     concat (map (\<lambda>blockIdx. map (\<lambda>threadIdx. (blockIdx, threadIdx)) [0..<blockDim])
               [0..<blocks])"

fun run_threads :: "('c \<Rightarrow> 's \<Rightarrow> fault + 's) \<Rightarrow> 'c list \<Rightarrow> 's \<Rightarrow> 's \<times> fault option" where
  "run_threads thread [] m = (m, None)"
| "run_threads thread (c # cs) m =
     (case thread c m of
        Inl e \<Rightarrow> (m, Some e)
      | Inr m' \<Rightarrow> run_threads thread cs m')"

definition launch ::
  "int \<Rightarrow> nat \<Rightarrow> (nat \<Rightarrow> nat \<Rightarrow> nat \<Rightarrow> 's \<Rightarrow> fault + 's) \<Rightarrow> 's \<Rightarrow> 's \<times> fault option" where
  "launch blocks blockDim thread m =
     (if 0 < blocks then
        run_threads (\<lambda>(blockIdx, threadIdx). thread blockIdx blockDim threadIdx)
          (grid_threads (nat blocks) blockDim) m
      else (m, None))"

section \<open>The dispatcher\<close>

text \<open>
  \<open>h_methods\<close> is a \<open>std::map\<close> with the two entries \<open>"Euler"\<close> and \<open>"RK4"\<close>;
  \<open>h_methods[name]\<close> for any other name inserts and returns an empty \<open>std::function\<close>.
\<close>

definition h_methods :: "string \<rightharpoonup> (real, real) method_t" where
  "h_methods = [''Euler'' \<mapsto> euler_method, ''RK4'' \<mapsto> rk4_method]"

definition threadsPerBlock :: nat where
  "threadsPerBlock = 512"

text \<open>
  \<open>solve_cuda\<close> returns the tensor \<open>x0\<close> whatever the threads did; the model returns the
  device memory after the launch, of which \<open>x0_a\<close> is the returned tensor, and the fault
  of the launch, if any. The number of blocks is computed in 64 bits and stored in an
  \<open>int\<close>.
\<close>

definition solve_cuda ::
  "real list list \<Rightarrow> real list \<Rightarrow> real list \<Rightarrow> real \<Rightarrow> int \<Rightarrow> string \<Rightarrow>
   real tensors \<times> fault option" where
  "solve_cuda F x0 g dt steps name =
     (let d_chosen_method = h_methods name;
          m = \<lparr>F_a = F, x0_a = x0, g_a = g\<rparr>;
          F_size = length F;
          x0_size = length x0;
          blocks = to_int ((x0_size + threadsPerBlock - 1) div threadsPerBlock)
      in if F_size = 1 then
           launch blocks threadsPerBlock
             (compact_diagonal_solver d_chosen_method dt steps x0_size) m
         else if F_size = 2 then
           launch blocks threadsPerBlock
             (compact_skew_symmetric_solver d_chosen_method dt steps x0_size) m
         else
           launch blocks threadsPerBlock
             (general_solver d_chosen_method dt steps x0_size) m)"

section \<open>The loops and the pairing of the specification\<close>

text \<open>
  Written from the words of the specification (sections 4.2 to 4.4), for comparison with
  the kernels above: a lane applies \<open>x_current = x_current + rule(F_value, x_current,
  g_value, dt)\<close> as many times as \<open>steps\<close> says, a pair applies the two lines of
  section 4.4.
\<close>

definition lane_spec :: "('a::plus, 'd) method_t \<Rightarrow> 'a \<Rightarrow> 'a \<Rightarrow> 'd \<Rightarrow> int \<Rightarrow> 'a \<Rightarrow> 'a" where
  "lane_spec rule F_value g_value dt steps x =
     ((\<lambda>x_current. x_current + rule F_value x_current g_value dt) ^^ nat steps) x"

definition pair_step_spec ::
  "('a::plus, 'd) method_t \<Rightarrow> 'a \<Rightarrow> 'a \<Rightarrow> 'a \<Rightarrow> 'a \<Rightarrow> 'a \<Rightarrow> 'a \<Rightarrow> 'd \<Rightarrow> 'a \<times> 'a \<Rightarrow> 'a \<times> 'a" where
  "pair_step_spec rule UL UR LL LR g1 g2 dt p =
     (case p of (x1, x2) \<Rightarrow>
        (let x1' = x1 + rule UL x1 g1 dt + rule UR x2 g2 dt;
             x2' = x1' + rule LL x1' g1 dt + rule LR x2 g2 dt
         in (x1', x2')))"

definition pair_spec ::
  "('a::plus, 'd) method_t \<Rightarrow> 'a \<Rightarrow> 'a \<Rightarrow> 'a \<Rightarrow> 'a \<Rightarrow> 'a \<Rightarrow> 'a \<Rightarrow> 'd \<Rightarrow> int \<Rightarrow> 'a \<times> 'a \<Rightarrow> 'a \<times> 'a" where
  "pair_spec rule UL UR LL LR g1 g2 dt steps p =
     (pair_step_spec rule UL UR LL LR g1 g2 dt ^^ nat steps) p"

section \<open>Which reads stay inside the tensors\<close>

text \<open>
  \<open>reads_in_bounds\<close>: for every lane of the kernel that the leading dimension of \<open>F\<close>
  selects, the addresses that the thread of the lane computes are inside the buffers of
  \<open>g\<close> and \<open>F\<close>. \<open>working_lanes\<close> is the bound that the guard of the kernel puts on
  \<open>tid\<close>, and zero when the launch is refused: when it is positive, the first thread of
  the first block passes the guard. \<open>lane\<close> is the index that the thread number \<open>r\<close> of
  the grid gives to the guard and to the accessors, \<open>grid\<close> the number of threads started.
\<close>

definition reads_in_bounds :: "'a list list \<Rightarrow> nat \<Rightarrow> 'a list \<Rightarrow> bool" where
  "reads_in_bounds F x0_size g =
     (if length F = 1 then
        (\<forall>i\<in>set [0..<x0_size]. i < length g \<and> offset F 0 0 < length (concat F))
      else if length F = 2 then
        (\<forall>i\<in>set [0..<x0_size div 2].
            i + x0_size div 2 < length g \<and>
            offset F 0 0 < length (concat F) \<and> offset F 0 1 < length (concat F) \<and>
            offset F 1 0 < length (concat F) \<and> offset F 1 1 < length (concat F))
      else
        (\<forall>i\<in>set [0..<x0_size]. i < length g \<and> offset F i i < length (concat F)))"

definition blocks_of :: "nat \<Rightarrow> int" where
  "blocks_of x0_size = to_int ((x0_size + threadsPerBlock - 1) div threadsPerBlock)"

definition working_lanes :: "'a list list \<Rightarrow> nat \<Rightarrow> nat" where
  "working_lanes F x0_size =
     (if 0 < blocks_of x0_size then (if length F = 2 then x0_size div 2 else x0_size) else 0)"

definition lane :: "nat \<Rightarrow> nat" where
  "lane r = to_size_t (to_int r)"

definition grid :: "nat \<Rightarrow> nat" where
  "grid n = nat (blocks_of n) * threadsPerBlock"

section \<open>Facts about the thread index and the grid\<close>

lemma to_int_unsigned: "to_int (unsigned n) = to_int n"
  by (simp add: to_int_def unsigned_def)

lemma thread_id_lane: "to_size_t (thread_id b bd t) = lane (b * bd + t)"
proof -
  have "unsigned (unsigned (b * bd) + t) = unsigned (b * bd + t)"
    by (simp add: unsigned_def mod_add_left_eq)
  then show ?thesis
    by (simp add: thread_id_def lane_def to_int_unsigned)
qed

lemma lane_id: "r < 2 ^ 31 \<Longrightarrow> lane r = r"
  by (simp add: lane_def to_int_def to_size_t_def)

lemma negative_mod:
  fixes x b :: int
  assumes "- b \<le> x" and "x < 0"
  shows "x mod b = x + b"
proof -
  have "x mod b = (x + b) mod b"
    by simp
  also have "\<dots> = x + b"
    using assms by (intro mod_pos_pos_trivial) simp_all
  finally show ?thesis .
qed

lemma lane_range: "lane r < 2 ^ 31 \<or> 2 ^ 64 - 2 ^ 31 \<le> lane r"
proof (cases "r mod 2 ^ 32 < (2::nat) ^ 31")
  case True
  then have "lane r = r mod 2 ^ 32"
    by (simp add: lane_def to_int_def to_size_t_def)
  with True show ?thesis by simp
next
  case False
  let ?u = "r mod 2 ^ 32"
  have u: "2 ^ 31 \<le> ?u" "?u < 2 ^ 32"
    using False by simp_all
  have "(int ?u - 2 ^ 32) mod 2 ^ 64 = int ?u - 2 ^ 32 + 2 ^ 64"
    using u by (intro negative_mod) simp_all
  then have "lane r = nat (int ?u - 2 ^ 32 + 2 ^ 64)"
    using False by (simp add: lane_def to_int_def to_size_t_def)
  then have "lane r = ?u + (2 ^ 64 - 2 ^ 32)"
    by (simp add: nat_add_distrib)
  with u show ?thesis by simp
qed

lemma lane_wrapped:
  assumes "2 ^ 31 \<le> r" and "r < 2 ^ 32"
  shows "2 ^ 64 - 2 ^ 31 \<le> lane r"
proof -
  have "(int r - 2 ^ 32) mod 2 ^ 64 = int r - 2 ^ 32 + 2 ^ 64"
    using assms by (intro negative_mod) simp_all
  then have "lane r = nat (int r - 2 ^ 32 + 2 ^ 64)"
    using assms by (simp add: lane_def to_int_def to_size_t_def)
  then have "lane r = r + (2 ^ 64 - 2 ^ 32)"
    by (simp add: nat_add_distrib)
  with assms show ?thesis by simp
qed

lemma to_int_small: "n < 2 ^ 31 \<Longrightarrow> to_int n = int n"
  by (simp add: to_int_def)

lemma count_upt: "count_list [a..<b] i = (if a \<le> i \<and> i < b then 1 else 0)"
  by (induction b) auto

lemma map_lane_upt: "G \<le> 2 ^ 31 \<Longrightarrow> map lane [0..<G] = [0..<G]"
  by (intro map_idI) (simp add: lane_id)

lemma count_lanes:
  assumes "G \<le> 2 ^ 32" and "i < 2 ^ 31"
  shows "count_list (map lane [0..<G]) i = (if i < G then 1 else 0)"
proof (cases "G \<le> 2 ^ 31")
  case True
  then show ?thesis by (simp add: map_lane_upt count_upt)
next
  case False
  then have split: "[0..<G] = [0..<2 ^ 31] @ [2 ^ 31..<G]"
    using upt_add_eq_append [of 0 "2 ^ 31" "G - 2 ^ 31"] by simp
  have "i \<notin> set (map lane [2 ^ 31..<G])"
  proof
    assume "i \<in> set (map lane [2 ^ 31..<G])"
    then obtain r where r: "2 ^ 31 \<le> r" "r < G" "lane r = i" by auto
    with assms(1) have "2 ^ 64 - 2 ^ 31 \<le> lane r"
      by (intro lane_wrapped) simp_all
    with r(3) assms(2) show False by simp
  qed
  then have "count_list (map lane [2 ^ 31..<G]) i = 0"
    by simp
  moreover have "count_list (map lane [0..<2 ^ 31]) i = 1"
    using assms(2) by (simp add: map_lane_upt count_upt)
  ultimately show ?thesis
    using False assms(2) by (simp add: split)
qed

lemma lane_skipped:
  assumes "2 ^ 31 \<le> j" and "j < 2 ^ 64 - 2 ^ 31"
  shows "lane r \<noteq> j"
  using lane_range [of r] assms by auto

lemma grid_threads_map:
  "map (\<lambda>(b, t). f (b * bd + t)) (grid_threads blocks bd) = map f [0..<blocks * bd]"
proof (induction blocks)
  case 0
  then show ?case by (simp add: grid_threads_def)
next
  case (Suc b)
  have a: "map (\<lambda>t. b * bd + t) [0..<bd] = [b * bd..<b * bd + bd]"
    by (simp add: map_add_upt add.commute)
  have "map (\<lambda>(b, t). f (b * bd + t)) (grid_threads (Suc b) bd) =
        map (\<lambda>(b, t). f (b * bd + t)) (grid_threads b bd) @ map f (map (\<lambda>t. b * bd + t) [0..<bd])"
    by (simp add: grid_threads_def comp_def)
  also have "\<dots> = map f [0..<b * bd] @ map f [b * bd..<b * bd + bd]"
    using Suc a by simp
  also have "\<dots> = map f [0..<b * bd + bd]"
    using upt_add_eq_append [of 0 "b * bd" bd] by simp
  finally show ?case by (simp add: add.commute)
qed

lemma ceil_div_cover:
  assumes "0 < (d::nat)"
  shows "n \<le> ((n + d - 1) div d) * d"
proof -
  have "(n + d - 1) div d * d + (n + d - 1) mod d = n + d - 1"
    by simp
  moreover have "(n + d - 1) mod d < d"
    using assms by simp
  ultimately show ?thesis
    by linarith
qed

lemma blocks_of_small:
  assumes "n \<le> 2 ^ 32"
  shows "blocks_of n = int ((n + 511) div 512)"
proof -
  have "(n + 511) div 512 \<le> (2 ^ 32 + 511) div (512::nat)"
    using assms by (intro div_le_mono) simp
  then have "(n + 511) div 512 < (2::nat) ^ 31"
    by simp
  then show ?thesis
    by (simp add: blocks_of_def threadsPerBlock_def to_int_small)
qed

lemma grid_small:
  assumes "n \<le> 2 ^ 32"
  shows "grid n = (n + 511) div 512 * 512" and "n \<le> grid n" and "grid n \<le> 2 ^ 32"
proof -
  show g: "grid n = (n + 511) div 512 * 512"
    using blocks_of_small [OF assms] by (simp add: grid_def threadsPerBlock_def)
  show "n \<le> grid n"
    using ceil_div_cover [of 512 n] g by simp
  have "(n + 511) div 512 \<le> (2 ^ 32 + 511) div (512::nat)"
    using assms by (intro div_le_mono) simp
  then have "(n + 511) div 512 \<le> 8388608" by simp
  then show "grid n \<le> 2 ^ 32"
    using g by simp
qed

lemma grid_smaller:
  assumes "n \<le> 2 ^ 31"
  shows "grid n \<le> 2 ^ 31"
proof -
  have "(n + 511) div 512 \<le> (2 ^ 31 + 511) div (512::nat)"
    using assms by (intro div_le_mono) simp
  then have "(n + 511) div 512 \<le> 4194304" by simp
  moreover have "n \<le> 2 ^ 32" using assms by simp
  ultimately show ?thesis
    using grid_small(1) [of n] by simp
qed

section \<open>Facts about the loop and a run of threads\<close>

lemma for_loop_ok:
  "\<forall>s. body s = Inr (step s) \<Longrightarrow> for_loop body steps i s = Inr ((step ^^ nat (steps - i)) s)"
proof (induction body steps i s rule: for_loop.induct)
  case (1 body steps i s)
  show ?case
  proof (cases "i < steps")
    case True
    then have n: "nat (steps - i) = Suc (nat (steps - (i + 1)))" by simp
    have b: "body s = Inr (step s)" using "1.prems" by simp
    have "for_loop body steps i s = for_loop body steps (i + 1) (step s)"
      using True b by (subst for_loop.simps) simp
    also have "\<dots> = Inr ((step ^^ nat (steps - (i + 1))) (step s))"
      using "1.IH" [OF True b "1.prems"] .
    also have "\<dots> = Inr ((step ^^ nat (steps - i)) s)"
      unfolding n by (simp add: funpow_swap1)
    finally show ?thesis .
  next
    case False
    then show ?thesis by (subst for_loop.simps) simp
  qed
qed

lemma for_loop_fail:
  "body s = Inl e \<Longrightarrow> for_loop body steps i s = (if i < steps then Inl e else Inr s)"
  by (subst for_loop.simps) simp

lemma for_loop_none: "steps \<le> i \<Longrightarrow> for_loop body steps i s = Inr s"
  by (subst for_loop.simps) simp

lemma lane_loop_some:
  "for_loop (lane_body (Some f) F_in g_in dt) steps 0 x = Inr (lane_spec f F_in g_in dt steps x)"
  using for_loop_ok [of "lane_body (Some f) F_in g_in dt" "\<lambda>x. x + f F_in x g_in dt" steps 0 x]
  by (simp add: lane_body_def lane_spec_def)

lemma lane_loop_none:
  "for_loop (lane_body None F_in g_in dt) steps 0 x =
     (if 0 < steps then Inl BadFunctionCall else Inr x)"
  by (simp add: for_loop_fail lane_body_def)

lemma block_loop_some:
  "for_loop (block_body (Some f) UL UR LL LR g1 g2 dt) steps 0 p =
     Inr (pair_spec f UL UR LL LR g1 g2 dt steps p)"
  using for_loop_ok [of "block_body (Some f) UL UR LL LR g1 g2 dt"
      "pair_step_spec f UL UR LL LR g1 g2 dt" steps 0 p]
  by (simp add: block_body_def pair_step_spec_def pair_spec_def split_beta Let_def)

lemma block_loop_none:
  "for_loop (block_body None UL UR LL LR g1 g2 dt) steps 0 p =
     (if 0 < steps then Inl BadFunctionCall else Inr p)"
  by (simp add: for_loop_fail block_body_def)

lemma lane_loop_idle:
  "method = None \<or> steps \<le> 0 \<Longrightarrow>
   for_loop (lane_body method F_in g_in dt) steps 0 x =
     (if 0 < steps then Inl BadFunctionCall else Inr x)"
  by (auto simp: for_loop_none lane_loop_none)

lemma block_loop_idle:
  "method = None \<or> steps \<le> 0 \<Longrightarrow>
   for_loop (block_body method UL UR LL LR g1 g2 dt) steps 0 p =
     (if 0 < steps then Inl BadFunctionCall else Inr p)"
  by (auto simp: for_loop_none block_loop_none)

lemma run_threads_inv:
  assumes "Inv m" and "\<And>c m m'. Inv m \<Longrightarrow> thread c m = Inr m' \<Longrightarrow> Inv m'"
  shows "Inv (fst (run_threads thread cs m))"
  using assms(1)
proof (induction cs arbitrary: m)
  case Nil
  then show ?case by simp
next
  case (Cons c cs)
  show ?case
  proof (cases "thread c m")
    case (Inl e)
    with Cons.prems show ?thesis by simp
  next
    case (Inr m')
    with Cons.prems assms(2) have "Inv m'" by blast
    with Cons.IH Inr show ?thesis by simp
  qed
qed

lemma run_threads_fault:
  assumes "Inv m"
    and "\<And>c m. Inv m \<Longrightarrow>
           (case thread c m of Inl e \<Rightarrow> bad c \<and> e = E | Inr m' \<Rightarrow> \<not> bad c \<and> Inv m')"
  shows "snd (run_threads thread cs m) = (if \<exists>c\<in>set cs. bad c then Some E else None)"
  using assms(1)
proof (induction cs arbitrary: m)
  case Nil
  then show ?case by simp
next
  case (Cons c cs)
  show ?case
  proof (cases "thread c m")
    case (Inl e)
    with assms(2) [OF Cons.prems, of c] show ?thesis by simp
  next
    case (Inr m')
    with assms(2) [OF Cons.prems, of c] have "\<not> bad c" "Inv m'" by simp_all
    with Cons.IH [of m'] Inr show ?thesis by simp
  qed
qed

lemma run_threads_same:
  assumes "\<And>c m'. thread c m = Inr m' \<Longrightarrow> m' = m"
  shows "fst (run_threads thread cs m) = m"
proof (induction cs)
  case Nil
  then show ?case by simp
next
  case (Cons c cs)
  show ?case
  proof (cases "thread c m")
    case (Inl e)
    then show ?thesis by simp
  next
    case (Inr m')
    with assms have "m' = m" by blast
    with Cons Inr show ?thesis by simp
  qed
qed

lemma run_threads_noop:
  assumes "\<And>c. thread c m = Inr m"
  shows "run_threads thread cs m = (m, None)"
  by (induction cs) (simp_all add: assms)

lemma run_threads_frame:
  assumes "\<And>c m m'. thread c m = Inr m' \<Longrightarrow>
             F_a m' = F_a m \<and> g_a m' = g_a m \<and> length (x0_a m') = length (x0_a m)"
  shows "F_a (fst (run_threads thread cs m)) = F_a m \<and>
         g_a (fst (run_threads thread cs m)) = g_a m \<and>
         length (x0_a (fst (run_threads thread cs m))) = length (x0_a m)"
proof -
  let ?Inv = "\<lambda>m'. F_a m' = F_a m \<and> g_a m' = g_a m \<and> length (x0_a m') = length (x0_a m)"
  show ?thesis
  proof (rule run_threads_inv [where Inv = ?Inv])
    show "?Inv m" by simp
  next
    fix c m1 m2
    assume "?Inv m1" "thread c m1 = Inr m2"
    then show "?Inv m2" using assms [of c m1 m2] by simp
  qed
qed

lemma pointwise_counts:
  fixes mem :: "'a tensors"
  assumes thr: "\<And>c xs. idx c < n \<Longrightarrow> length xs = n \<Longrightarrow>
                  thread c (mem\<lparr>x0_a := xs\<rparr>) =
                  Inr (mem\<lparr>x0_a := xs[idx c := h (idx c) (xs ! idx c)]\<rparr>)"
    and idle: "\<And>c m. n \<le> idx c \<Longrightarrow> thread c m = Inr m"
  shows "length xs = n \<Longrightarrow>
         run_threads thread cs (mem\<lparr>x0_a := xs\<rparr>) =
           (mem\<lparr>x0_a := map (\<lambda>i. (h i ^^ count_list (map idx cs) i) (xs ! i)) [0..<n]\<rparr>, None)"
proof (induction cs arbitrary: xs)
  case Nil
  then have "map (\<lambda>i. xs ! i) [0..<n] = xs"
    using map_nth [of xs] by simp
  then show ?case by simp
next
  case (Cons c cs)
  let ?res = "\<lambda>ds ys. map (\<lambda>i. (h i ^^ count_list (map idx ds) i) (ys ! i)) [0..<n]"
  show ?case
  proof (cases "idx c < n")
    case True
    let ?ys = "xs[idx c := h (idx c) (xs ! idx c)]"
    have "run_threads thread (c # cs) (mem\<lparr>x0_a := xs\<rparr>) =
          run_threads thread cs (mem\<lparr>x0_a := ?ys\<rparr>)"
      using True Cons.prems by (simp add: thr)
    also have "\<dots> = (mem\<lparr>x0_a := ?res cs ?ys\<rparr>, None)"
      using Cons.prems by (intro Cons.IH) simp
    also have "?res cs ?ys = ?res (c # cs) xs"
      using Cons.prems True by (auto simp: nth_list_update funpow_swap1)
    finally show ?thesis .
  next
    case False
    then have "run_threads thread (c # cs) (mem\<lparr>x0_a := xs\<rparr>) =
          run_threads thread cs (mem\<lparr>x0_a := xs\<rparr>)"
      by (simp add: idle)
    also have "\<dots> = (mem\<lparr>x0_a := ?res cs xs\<rparr>, None)"
      using Cons.prems by (intro Cons.IH) simp
    also have "?res cs xs = ?res (c # cs) xs"
      using False by auto
    finally show ?thesis .
  qed
qed

lemma pairwise_counts:
  fixes mem :: "'a tensors"
  assumes thr: "\<And>c xs. idx c < h \<Longrightarrow> length xs = n \<Longrightarrow>
                  thread c (mem\<lparr>x0_a := xs\<rparr>) =
                  Inr (mem\<lparr>x0_a := xs[idx c := fst (p (idx c) (xs ! idx c, xs ! (idx c + h))),
                                      idx c + h := snd (p (idx c) (xs ! idx c, xs ! (idx c + h)))]\<rparr>)"
    and idle: "\<And>c m. h \<le> idx c \<Longrightarrow> thread c m = Inr m"
    and h: "2 * h \<le> n"
  shows "length xs = n \<Longrightarrow>
         run_threads thread cs (mem\<lparr>x0_a := xs\<rparr>) =
           (mem\<lparr>x0_a := map (\<lambda>i. if i < h then
                                  fst ((p i ^^ count_list (map idx cs) i) (xs ! i, xs ! (i + h)))
                                else if i < 2 * h then
                                  snd ((p (i - h) ^^ count_list (map idx cs) (i - h))
                                         (xs ! (i - h), xs ! i))
                                else xs ! i) [0..<n]\<rparr>, None)"
proof (induction cs arbitrary: xs)
  case Nil
  have "map (\<lambda>i. if i < h then
                   fst ((p i ^^ count_list (map idx []) i) (xs ! i, xs ! (i + h)))
                 else if i < 2 * h then
                   snd ((p (i - h) ^^ count_list (map idx []) (i - h)) (xs ! (i - h), xs ! i))
                 else xs ! i) [0..<n] = xs"
    using Nil by (intro nth_equalityI) simp_all
  then show ?case by simp
next
  case (Cons c cs)
  let ?res = "\<lambda>ds ys. map (\<lambda>i. if i < h then
                                  fst ((p i ^^ count_list (map idx ds) i) (ys ! i, ys ! (i + h)))
                                else if i < 2 * h then
                                  snd ((p (i - h) ^^ count_list (map idx ds) (i - h))
                                         (ys ! (i - h), ys ! i))
                                else ys ! i) [0..<n]"
  show ?case
  proof (cases "idx c < h")
    case True
    let ?j = "idx c"
    let ?q = "p ?j (xs ! ?j, xs ! (?j + h))"
    let ?ys = "xs[?j := fst ?q, ?j + h := snd ?q]"
    have "run_threads thread (c # cs) (mem\<lparr>x0_a := xs\<rparr>) =
          run_threads thread cs (mem\<lparr>x0_a := ?ys\<rparr>)"
      using True Cons.prems by (simp add: thr)
    also have "\<dots> = (mem\<lparr>x0_a := ?res cs ?ys\<rparr>, None)"
      using Cons.prems by (intro Cons.IH) simp
    also have "?res cs ?ys = ?res (c # cs) xs"
    proof (rule nth_equalityI)
      show "length (?res cs ?ys) = length (?res (c # cs) xs)"
        by simp
    next
      fix i
      assume "i < length (?res cs ?ys)"
      then have i: "i < n" by simp
      have t: "?j + h < n" "?j < n"
        using True h by auto
      have own: "(?ys ! ?j, ?ys ! (?j + h)) = ?q"
        using t True Cons.prems by simp
      have swap: "(p ?j ^^ k) ?q = (p ?j ^^ Suc k) (xs ! ?j, xs ! (?j + h))" for k
        by (simp add: funpow_swap1)
      consider "i < h" | "h \<le> i" "i < 2 * h" | "2 * h \<le> i"
        by linarith
      then show "?res cs ?ys ! i = ?res (c # cs) xs ! i"
      proof cases
        case 1
        show ?thesis
        proof (cases "i = ?j")
          case True
          with 1 i own swap show ?thesis by simp
        next
          case False
          with 1 i t True Cons.prems show ?thesis
            by (auto simp: nth_list_update)
        qed
      next
        case 2
        then have k: "i - h < h" "i - h + h = i" by linarith+
        show ?thesis
        proof (cases "i - h = ?j")
          case True
          with k have "i = ?j + h" by linarith
          with 2 i own swap True show ?thesis by simp
        next
          case False
          with k have "i \<noteq> ?j + h" "i \<noteq> ?j" using True 2 by linarith+
          with False 2 i k t Cons.prems show ?thesis
            by (auto simp: nth_list_update)
        qed
      next
        case 3
        with i t True Cons.prems show ?thesis
          by (auto simp: nth_list_update)
      qed
    qed
    finally show ?thesis .
  next
    case False
    then have "run_threads thread (c # cs) (mem\<lparr>x0_a := xs\<rparr>) =
          run_threads thread cs (mem\<lparr>x0_a := xs\<rparr>)"
      by (simp add: idle)
    also have "\<dots> = (mem\<lparr>x0_a := ?res cs xs\<rparr>, None)"
      using Cons.prems by (intro Cons.IH) simp
    also have "?res cs xs = ?res (c # cs) xs"
      using False by auto
    finally show ?thesis .
  qed
qed

section \<open>The dispatcher, case by case\<close>

lemma launch_run:
  "launch blocks bd thread m =
     run_threads (\<lambda>(b, t). thread b bd t) (grid_threads (nat blocks) bd) m"
  by (simp add: launch_def grid_threads_def)

lemma grid_lanes:
  "map (\<lambda>(b, t). lane (b * threadsPerBlock + t)) (grid_threads (nat (blocks_of n)) threadsPerBlock) =
     map lane [0..<grid n]"
  by (simp add: grid_threads_map grid_def)

lemma solve_cuda_diagonal:
  "length F = 1 \<Longrightarrow> solve_cuda F x0 g dt steps name =
     run_threads (\<lambda>(b, t). compact_diagonal_solver (h_methods name) dt steps (length x0)
                               b threadsPerBlock t)
       (grid_threads (nat (blocks_of (length x0))) threadsPerBlock)
       \<lparr>F_a = F, x0_a = x0, g_a = g\<rparr>"
  by (simp add: solve_cuda_def launch_run blocks_of_def Let_def)

lemma solve_cuda_block:
  "length F = 2 \<Longrightarrow> solve_cuda F x0 g dt steps name =
     run_threads (\<lambda>(b, t). compact_skew_symmetric_solver (h_methods name) dt steps (length x0)
                               b threadsPerBlock t)
       (grid_threads (nat (blocks_of (length x0))) threadsPerBlock)
       \<lparr>F_a = F, x0_a = x0, g_a = g\<rparr>"
  by (simp add: solve_cuda_def launch_run blocks_of_def Let_def)

lemma solve_cuda_general:
  "length F \<noteq> 1 \<Longrightarrow> length F \<noteq> 2 \<Longrightarrow> solve_cuda F x0 g dt steps name =
     run_threads (\<lambda>(b, t). general_solver (h_methods name) dt steps (length x0)
                               b threadsPerBlock t)
       (grid_threads (nat (blocks_of (length x0))) threadsPerBlock)
       \<lparr>F_a = F, x0_a = x0, g_a = g\<rparr>"
  by (simp add: solve_cuda_def launch_run blocks_of_def Let_def)

lemma general_counted:
  assumes inb: "\<forall>i<length x0. i < length g \<and> offset F i i < length (concat F)"
  shows "run_threads (\<lambda>(b, t). general_solver (Some f) dt steps (length x0) b bd t) cs
           \<lparr>F_a = F, x0_a = x0, g_a = g\<rparr> =
         (\<lparr>F_a = F,
           x0_a = map (\<lambda>i. (lane_spec f (concat F ! offset F i i) (g ! i) dt steps ^^
                               count_list (map (\<lambda>(b, t). lane (b * bd + t)) cs) i) (x0 ! i))
                    [0..<length x0],
           g_a = g\<rparr>, None)"
proof -
  let ?m = "\<lparr>F_a = F, x0_a = x0, g_a = g\<rparr>"
  let ?idx = "\<lambda>(b, t). lane (b * bd + t)"
  let ?h = "\<lambda>i. lane_spec f (concat F ! offset F i i) (g ! i) dt steps"
  have "run_threads (\<lambda>(b, t). general_solver (Some f) dt steps (length x0) b bd t) cs
          (?m\<lparr>x0_a := x0\<rparr>) =
        (?m\<lparr>x0_a := map (\<lambda>i. (?h i ^^ count_list (map ?idx cs) i) (x0 ! i)) [0..<length x0]\<rparr>,
         None)"
    using inb
    by (intro pointwise_counts)
       (auto simp: general_solver_def lane_loop_some thread_id_lane Let_def)
  then show ?thesis by simp
qed

lemma diagonal_counted:
  assumes inb: "\<forall>i<length x0. i < length g \<and> offset F 0 0 < length (concat F)"
  shows "run_threads (\<lambda>(b, t). compact_diagonal_solver (Some f) dt steps (length x0) b bd t) cs
           \<lparr>F_a = F, x0_a = x0, g_a = g\<rparr> =
         (\<lparr>F_a = F,
           x0_a = map (\<lambda>i. (lane_spec f (concat F ! offset F 0 0) (g ! i) dt steps ^^
                               count_list (map (\<lambda>(b, t). lane (b * bd + t)) cs) i) (x0 ! i))
                    [0..<length x0],
           g_a = g\<rparr>, None)"
proof -
  let ?m = "\<lparr>F_a = F, x0_a = x0, g_a = g\<rparr>"
  let ?idx = "\<lambda>(b, t). lane (b * bd + t)"
  let ?h = "\<lambda>i. lane_spec f (concat F ! offset F 0 0) (g ! i) dt steps"
  have "run_threads (\<lambda>(b, t). compact_diagonal_solver (Some f) dt steps (length x0) b bd t) cs
          (?m\<lparr>x0_a := x0\<rparr>) =
        (?m\<lparr>x0_a := map (\<lambda>i. (?h i ^^ count_list (map ?idx cs) i) (x0 ! i)) [0..<length x0]\<rparr>,
         None)"
    using inb
    by (intro pointwise_counts)
       (auto simp: compact_diagonal_solver_def lane_loop_some thread_id_lane Let_def)
  then show ?thesis by simp
qed

lemma block_counted:
  assumes inb: "\<forall>i<length x0 div 2. i + length x0 div 2 < length g \<and>
             offset F 0 0 < length (concat F) \<and> offset F 0 1 < length (concat F) \<and>
             offset F 1 0 < length (concat F) \<and> offset F 1 1 < length (concat F)"
  shows "run_threads (\<lambda>(b, t). compact_skew_symmetric_solver (Some f) dt steps (length x0) b bd t) cs
           \<lparr>F_a = F, x0_a = x0, g_a = g\<rparr> =
         (\<lparr>F_a = F,
           x0_a = map (\<lambda>i. if i < length x0 div 2 then
                              fst ((pair_spec f (concat F ! offset F 0 0) (concat F ! offset F 0 1)
                                      (concat F ! offset F 1 0) (concat F ! offset F 1 1)
                                      (g ! i) (g ! (i + length x0 div 2)) dt steps ^^
                                    count_list (map (\<lambda>(b, t). lane (b * bd + t)) cs) i)
                                     (x0 ! i, x0 ! (i + length x0 div 2)))
                            else if i < 2 * (length x0 div 2) then
                              snd ((pair_spec f (concat F ! offset F 0 0) (concat F ! offset F 0 1)
                                      (concat F ! offset F 1 0) (concat F ! offset F 1 1)
                                      (g ! (i - length x0 div 2)) (g ! i) dt steps ^^
                                    count_list (map (\<lambda>(b, t). lane (b * bd + t)) cs)
                                      (i - length x0 div 2))
                                     (x0 ! (i - length x0 div 2), x0 ! i))
                            else x0 ! i) [0..<length x0],
           g_a = g\<rparr>, None)"
proof -
  let ?h = "length x0 div 2"
  let ?m = "\<lparr>F_a = F, x0_a = x0, g_a = g\<rparr>"
  let ?idx = "\<lambda>(b, t). lane (b * bd + t)"
  let ?p = "\<lambda>i. pair_spec f (concat F ! offset F 0 0) (concat F ! offset F 0 1)
                   (concat F ! offset F 1 0) (concat F ! offset F 1 1)
                   (g ! i) (g ! (i + ?h)) dt steps"
  let ?thread = "\<lambda>(b, t). compact_skew_symmetric_solver (Some f) dt steps (length x0) b bd t"
  have thr: "?thread c (?m\<lparr>x0_a := xs\<rparr>) =
             Inr (?m\<lparr>x0_a := xs[?idx c := fst (?p (?idx c) (xs ! ?idx c, xs ! (?idx c + ?h))),
                                  ?idx c + ?h := snd (?p (?idx c) (xs ! ?idx c, xs ! (?idx c + ?h)))]\<rparr>)"
    if "?idx c < ?h" "length xs = length x0" for c xs
  proof -
    have "?idx c + ?h < length x0" using that(1) by linarith
    with that inb show ?thesis
      by (cases c)
         (simp add: compact_skew_symmetric_solver_def block_loop_some thread_id_lane Let_def)
  qed
  have idle: "?thread c m = Inr m" if "?h \<le> ?idx c" for c and m :: "'a tensors"
    using that
    by (cases c) (simp add: compact_skew_symmetric_solver_def thread_id_lane Let_def)
  have "run_threads ?thread cs (?m\<lparr>x0_a := x0\<rparr>) =
        (?m\<lparr>x0_a := map (\<lambda>i. if i < ?h then
                                 fst ((?p i ^^ count_list (map ?idx cs) i) (x0 ! i, x0 ! (i + ?h)))
                               else if i < 2 * ?h then
                                 snd ((?p (i - ?h) ^^ count_list (map ?idx cs) (i - ?h))
                                        (x0 ! (i - ?h), x0 ! i))
                               else x0 ! i) [0..<length x0]\<rparr>, None)"
  proof (rule pairwise_counts [where p = ?p and idx = ?idx])
    show "2 * ?h \<le> length x0" by simp
    show "length x0 = length x0" by simp
  qed (use thr idle in blast)+
  moreover have "g ! (i - ?h + ?h) = g ! i" if "\<not> i < ?h" for i
    using that by simp
  ultimately show ?thesis
    by simp
qed

section \<open>Entries of the matrix and the closed forms of a call\<close>

lemma offset_zero: "offset F 0 0 = 0"
  by (simp add: offset_def)

lemma first_entry:
  assumes "0 < length F" and "0 < length (F ! 0)"
  shows "offset F 0 0 < length (concat F)" and "concat F ! offset F 0 0 = F ! 0 ! 0"
proof -
  obtain row rest where F: "F = row # rest"
    using assms(1) by (cases F) auto
  with assms(2) show "offset F 0 0 < length (concat F)"
    by (simp add: offset_zero)
  from F assms(2) show "concat F ! offset F 0 0 = F ! 0 ! 0"
    by (simp add: offset_zero nth_append)
qed

lemma block_entries:
  assumes "length F = 2" and "1 < length (F ! 0)" and "1 < length (F ! 1)"
  shows "offset F 0 0 < length (concat F)" "offset F 0 1 < length (concat F)"
    "offset F 1 0 < length (concat F)" "offset F 1 1 < length (concat F)"
    "concat F ! offset F 0 0 = F ! 0 ! 0" "concat F ! offset F 0 1 = F ! 0 ! 1"
    "concat F ! offset F 1 0 = F ! 1 ! 0" "concat F ! offset F 1 1 = F ! 1 ! 1"
proof -
  obtain r0 r1 where F: "F = [r0, r1]"
    using assms(1) by (cases F; cases "tl F") auto
  with assms(2,3) show "offset F 0 0 < length (concat F)" "offset F 0 1 < length (concat F)"
    "offset F 1 0 < length (concat F)" "offset F 1 1 < length (concat F)"
    "concat F ! offset F 0 0 = F ! 0 ! 0" "concat F ! offset F 0 1 = F ! 0 ! 1"
    "concat F ! offset F 1 0 = F ! 1 ! 0" "concat F ! offset F 1 1 = F ! 1 ! 1"
    by (auto simp: offset_def columns_def nth_append)
qed

lemma matrix_entry:
  assumes "\<forall>row\<in>set F. length row = n" and "i < length F" and "j < n"
  shows "i * n + j < length (concat F) \<and> concat F ! (i * n + j) = F ! i ! j"
  using assms
proof (induction F arbitrary: i)
  case Nil
  then show ?case by simp
next
  case (Cons row F)
  show ?case
  proof (cases i)
    case 0
    with Cons.prems show ?thesis by (simp add: nth_append)
  next
    case (Suc k)
    with Cons.prems have "k * n + j < length (concat F) \<and> concat F ! (k * n + j) = F ! k ! j"
      by (intro Cons.IH) simp_all
    moreover have "length row = n" using Cons.prems by simp
    ultimately show ?thesis using Suc by (simp add: nth_append)
  qed
qed

lemma diagonal_entry:
  assumes "\<forall>row\<in>set F. length row = length (F ! 0)" and "i < length F" and "i < length (F ! i)"
  shows "offset F i i < length (concat F)" and "concat F ! offset F i i = F ! i ! i"
proof -
  obtain row rest where F: "F = row # rest"
    using assms(2) by (cases F) auto
  then have c: "columns F = length (F ! 0)"
    by (simp add: columns_def)
  have "length (F ! i) = length (F ! 0)"
    using assms(1,2) by simp
  with assms(3) have "i < length (F ! 0)" by simp
  with matrix_entry [OF assms(1,2), of i] c
  show "offset F i i < length (concat F)" and "concat F ! offset F i i = F ! i ! i"
    by (simp_all add: offset_def)
qed

lemma once:
  assumes "n \<le> 2 ^ 32" and "i < 2 ^ 31" and "i < n"
  shows "count_list (map (\<lambda>(b, t). lane (b * threadsPerBlock + t))
           (grid_threads (nat (blocks_of n)) threadsPerBlock)) i = 1"
  using count_lanes [of "grid n" i] grid_small(2,3) [OF assms(1)] assms(2,3)
  by (simp add: grid_lanes)

lemma general_solve:
  assumes "length F \<noteq> 1" and "length F \<noteq> 2"
    and "length x0 \<le> length g"
    and "\<forall>i<length x0. offset F i i < length (concat F)"
    and "h_methods name = Some rule"
    and "length x0 \<le> 2 ^ 31"
  shows "solve_cuda F x0 g dt steps name =
           (\<lparr>F_a = F,
             x0_a = map (\<lambda>i. lane_spec rule (concat F ! offset F i i) (g ! i) dt steps (x0 ! i))
                      [0..<length x0],
             g_a = g\<rparr>, None)"
proof -
  have "count_list (map (\<lambda>(b, t). lane (b * threadsPerBlock + t))
           (grid_threads (nat (blocks_of (length x0))) threadsPerBlock)) i = 1"
    if "i < length x0" for i
    using that assms(6) by (intro once) simp_all
  moreover have "\<forall>i<length x0. i < length g \<and> offset F i i < length (concat F)"
    using assms(3,4) by simp
  ultimately show ?thesis
    using assms(1,2,5) by (simp add: solve_cuda_general general_counted)
qed

lemma diagonal_solve:
  assumes "length F = 1" and "0 < length (F ! 0)"
    and "length x0 \<le> length g"
    and "h_methods name = Some rule"
    and "length x0 \<le> 2 ^ 31"
  shows "solve_cuda F x0 g dt steps name =
           (\<lparr>F_a = F,
             x0_a = map (\<lambda>i. lane_spec rule (F ! 0 ! 0) (g ! i) dt steps (x0 ! i)) [0..<length x0],
             g_a = g\<rparr>, None)"
proof -
  have "count_list (map (\<lambda>(b, t). lane (b * threadsPerBlock + t))
           (grid_threads (nat (blocks_of (length x0))) threadsPerBlock)) i = 1"
    if "i < length x0" for i
    using that assms(5) by (intro once) simp_all
  moreover have "\<forall>i<length x0. i < length g \<and> offset F 0 0 < length (concat F)"
    using assms(1,2,3) first_entry(1) [of F] by simp
  moreover have "concat F ! offset F 0 0 = F ! 0 ! 0"
    using assms(1,2) by (intro first_entry(2)) simp_all
  ultimately show ?thesis
    using assms(1,4) by (simp add: solve_cuda_diagonal diagonal_counted)
qed

lemma block_solve:
  assumes "length F = 2" and "1 < length (F ! 0)" and "1 < length (F ! 1)"
    and "2 * (length x0 div 2) \<le> length g"
    and "h_methods name = Some rule"
    and "length x0 \<le> 2 ^ 32"
  shows "solve_cuda F x0 g dt steps name =
           (\<lparr>F_a = F,
           x0_a = map (\<lambda>i. if i < length x0 div 2 then
                              fst (pair_spec rule (F ! 0 ! 0) (F ! 0 ! 1) (F ! 1 ! 0) (F ! 1 ! 1)
                                     (g ! i) (g ! (i + length x0 div 2)) dt steps
                                     (x0 ! i, x0 ! (i + length x0 div 2)))
                            else if i < 2 * (length x0 div 2) then
                              snd (pair_spec rule (F ! 0 ! 0) (F ! 0 ! 1) (F ! 1 ! 0) (F ! 1 ! 1)
                                     (g ! (i - length x0 div 2)) (g ! i) dt steps
                                     (x0 ! (i - length x0 div 2), x0 ! i))
                            else x0 ! i) [0..<length x0],
           g_a = g\<rparr>, None)"
proof -
  let ?h = "length x0 div 2"
  have h: "?h \<le> 2 ^ 31"
    using assms(6) by simp
  have one: "count_list (map (\<lambda>(b, t). lane (b * threadsPerBlock + t))
           (grid_threads (nat (blocks_of (length x0))) threadsPerBlock)) i = 1"
    if "i < ?h" for i
  proof -
    have "i < 2 ^ 31" "i < length x0" using that h by linarith+
    then show ?thesis using assms(6) by (intro once) simp_all
  qed
  have two: "count_list (map (\<lambda>(b, t). lane (b * threadsPerBlock + t))
           (grid_threads (nat (blocks_of (length x0))) threadsPerBlock)) (i - ?h) = 1"
    if "\<not> i < ?h" "i < 2 * ?h" for i
    using that by (intro one) linarith
  have "\<forall>i<?h. i + ?h < length g \<and>
             offset F 0 0 < length (concat F) \<and> offset F 0 1 < length (concat F) \<and>
             offset F 1 0 < length (concat F) \<and> offset F 1 1 < length (concat F)"
    using assms(4) block_entries(1-4) [OF assms(1,2,3)] by auto
  then show ?thesis
    using assms(1,5) one two block_entries(5-8) [OF assms(1,2,3)]
    by (simp add: solve_cuda_block block_counted)
qed

section \<open>Calls in which no rule is invoked, calls that do not fault\<close>

lemma general_solver_frame:
  "general_solver method dt steps n b bd t m = Inr m' \<Longrightarrow>
     F_a m' = F_a m \<and> g_a m' = g_a m \<and> length (x0_a m') = length (x0_a m)"
  by (auto simp: general_solver_def Let_def split: if_splits sum.splits)

lemma compact_diagonal_solver_frame:
  "compact_diagonal_solver method dt steps n b bd t m = Inr m' \<Longrightarrow>
     F_a m' = F_a m \<and> g_a m' = g_a m \<and> length (x0_a m') = length (x0_a m)"
  by (auto simp: compact_diagonal_solver_def Let_def split: if_splits sum.splits)

lemma compact_skew_symmetric_solver_frame:
  "compact_skew_symmetric_solver method dt steps n b bd t m = Inr m' \<Longrightarrow>
     F_a m' = F_a m \<and> g_a m' = g_a m \<and> length (x0_a m') = length (x0_a m)"
  by (auto simp: compact_skew_symmetric_solver_def Let_def split: if_splits sum.splits)

lemma general_solver_idle:
  assumes "method = None \<or> steps \<le> 0"
  shows "general_solver method dt steps n b bd t m =
     (if lane (b * bd + t) < n then
        (if lane (b * bd + t) < length (x0_a m) \<and> lane (b * bd + t) < length (g_a m) \<and>
            offset (F_a m) (lane (b * bd + t)) (lane (b * bd + t)) < length (concat (F_a m))
         then (if 0 < steps then Inl BadFunctionCall else Inr m)
         else Inl OutOfBounds)
      else Inr m)"
  by (simp add: general_solver_def lane_loop_idle [OF assms] thread_id_lane Let_def)

lemma compact_diagonal_solver_idle:
  assumes "method = None \<or> steps \<le> 0"
  shows "compact_diagonal_solver method dt steps n b bd t m =
     (if lane (b * bd + t) < n then
        (if lane (b * bd + t) < length (x0_a m) \<and> lane (b * bd + t) < length (g_a m) \<and>
            offset (F_a m) 0 0 < length (concat (F_a m))
         then (if 0 < steps then Inl BadFunctionCall else Inr m)
         else Inl OutOfBounds)
      else Inr m)"
  by (simp add: compact_diagonal_solver_def lane_loop_idle [OF assms] thread_id_lane Let_def)

lemma compact_skew_symmetric_solver_idle:
  assumes "method = None \<or> steps \<le> 0"
  shows "compact_skew_symmetric_solver method dt steps n b bd t m =
     (if lane (b * bd + t) < n div 2 then
        (if lane (b * bd + t) + n div 2 < length (g_a m) \<and>
            lane (b * bd + t) + n div 2 < length (x0_a m) \<and>
            offset (F_a m) 0 0 < length (concat (F_a m)) \<and>
            offset (F_a m) 0 1 < length (concat (F_a m)) \<and>
            offset (F_a m) 1 0 < length (concat (F_a m)) \<and>
            offset (F_a m) 1 1 < length (concat (F_a m))
         then (if 0 < steps then Inl BadFunctionCall else Inr m)
         else Inl OutOfBounds)
      else Inr m)"
  by (simp add: compact_skew_symmetric_solver_def block_loop_idle [OF assms] thread_id_lane Let_def)

lemma idle_memory:
  assumes "h_methods name = None \<or> steps \<le> 0"
  shows "fst (solve_cuda F x0 g dt steps name) = \<lparr>F_a = F, x0_a = x0, g_a = g\<rparr>"
proof -
  consider "length F = 1" | "length F = 2" | "length F \<noteq> 1" "length F \<noteq> 2"
    by blast
  then show ?thesis
  proof cases
    case 1
    then show ?thesis
      by (simp add: solve_cuda_diagonal)
         (rule run_threads_same,
          auto simp: compact_diagonal_solver_idle [OF assms] split: if_splits)
  next
    case 2
    then show ?thesis
      by (simp add: solve_cuda_block)
         (rule run_threads_same,
          auto simp: compact_skew_symmetric_solver_idle [OF assms] split: if_splits)
  next
    case 3
    then show ?thesis
      by (simp add: solve_cuda_general)
         (rule run_threads_same,
          auto simp: general_solver_idle [OF assms] split: if_splits)
  qed
qed

lemma first_thread:
  "(\<exists>c\<in>set (grid_threads (nat (blocks_of n)) threadsPerBlock).
      (case c of (b, t) \<Rightarrow> lane (b * threadsPerBlock + t)) < k) \<longleftrightarrow>
   0 < blocks_of n \<and> 0 < k"
proof
  assume "\<exists>c\<in>set (grid_threads (nat (blocks_of n)) threadsPerBlock).
      (case c of (b, t) \<Rightarrow> lane (b * threadsPerBlock + t)) < k"
  then show "0 < blocks_of n \<and> 0 < k"
    by (cases "0 < blocks_of n") (auto simp: grid_threads_def)
next
  assume a: "0 < blocks_of n \<and> 0 < k"
  then have "0 < nat (blocks_of n)"
    by simp
  then have "(0, 0) \<in> set (grid_threads (nat (blocks_of n)) threadsPerBlock)"
    by (auto simp: grid_threads_def threadsPerBlock_def intro!: bexI [of _ 0])
  moreover have "lane (0 * threadsPerBlock + 0) < k"
    using a by (simp add: lane_id)
  ultimately show "\<exists>c\<in>set (grid_threads (nat (blocks_of n)) threadsPerBlock).
      (case c of (b, t) \<Rightarrow> lane (b * threadsPerBlock + t)) < k"
    by (intro bexI [of _ "(0, 0)"]) simp_all
qed

lemma idle_fault:
  assumes idle: "h_methods name = None \<or> steps \<le> 0"
    and inb: "reads_in_bounds F (length x0) g"
  shows "snd (solve_cuda F x0 g dt steps name) =
           (if 0 < steps \<and> 0 < working_lanes F (length x0) then Some BadFunctionCall else None)"
proof -
  let ?m = "\<lparr>F_a = F, x0_a = x0, g_a = g\<rparr>"
  let ?n = "length x0"
  let ?cs = "grid_threads (nat (blocks_of ?n)) threadsPerBlock"
  let ?k = "if length F = 2 then ?n div 2 else ?n"
  let ?bad = "\<lambda>c. (case c of (b, t) \<Rightarrow> lane (b * threadsPerBlock + t)) < ?k \<and> 0 < steps"
  have ex: "(\<exists>c\<in>set ?cs. ?bad c) \<longleftrightarrow> 0 < steps \<and> 0 < working_lanes F ?n"
    using first_thread [of ?n ?k] by (auto simp: working_lanes_def)
  have half: "i + ?n div 2 < ?n" if "i < ?n div 2" for i
    using that by linarith
  consider "length F = 1" | "length F = 2" | "length F \<noteq> 1" "length F \<noteq> 2"
    by blast
  then have "snd (solve_cuda F x0 g dt steps name) =
               (if \<exists>c\<in>set ?cs. ?bad c then Some BadFunctionCall else None)"
  proof cases
    case 1
    have "snd (run_threads (\<lambda>(b, t). compact_diagonal_solver (h_methods name) dt steps ?n
                                        b threadsPerBlock t) ?cs ?m) =
            (if \<exists>c\<in>set ?cs. ?bad c then Some BadFunctionCall else None)"
      by (rule run_threads_fault [where Inv = "\<lambda>m. m = ?m"])
         (use 1 inb in \<open>auto simp: compact_diagonal_solver_idle [OF idle] reads_in_bounds_def\<close>)
    with 1 show ?thesis by (simp add: solve_cuda_diagonal)
  next
    case 2
    have "snd (run_threads (\<lambda>(b, t). compact_skew_symmetric_solver (h_methods name) dt steps ?n
                                        b threadsPerBlock t) ?cs ?m) =
            (if \<exists>c\<in>set ?cs. ?bad c then Some BadFunctionCall else None)"
      by (rule run_threads_fault [where Inv = "\<lambda>m. m = ?m"])
         (use 2 inb half in
           \<open>auto simp: compact_skew_symmetric_solver_idle [OF idle] reads_in_bounds_def\<close>)
    with 2 show ?thesis by (simp add: solve_cuda_block)
  next
    case 3
    have "snd (run_threads (\<lambda>(b, t). general_solver (h_methods name) dt steps ?n
                                        b threadsPerBlock t) ?cs ?m) =
            (if \<exists>c\<in>set ?cs. ?bad c then Some BadFunctionCall else None)"
      by (rule run_threads_fault [where Inv = "\<lambda>m. m = ?m"])
         (use 3 inb in \<open>auto simp: general_solver_idle [OF idle] reads_in_bounds_def\<close>)
    with 3 show ?thesis by (simp add: solve_cuda_general)
  qed
  with ex show ?thesis by simp
qed

lemma idle_solve:
  assumes "h_methods name = None \<or> steps \<le> 0"
    and "reads_in_bounds F (length x0) g"
  shows "solve_cuda F x0 g dt steps name =
           (\<lparr>F_a = F, x0_a = x0, g_a = g\<rparr>,
            if 0 < steps \<and> 0 < working_lanes F (length x0) then Some BadFunctionCall else None)"
  using idle_memory [OF assms(1), of F x0 g dt] idle_fault [OF assms, of dt]
  by (simp add: prod_eq_iff)

lemma registered_no_fault:
  assumes reg: "h_methods name = Some rule"
    and inb: "reads_in_bounds F (length x0) g"
  shows "snd (solve_cuda F x0 g dt steps name) = None"
proof -
  let ?m = "\<lparr>F_a = F, x0_a = x0, g_a = g\<rparr>"
  let ?n = "length x0"
  let ?cs = "grid_threads (nat (blocks_of ?n)) threadsPerBlock"
  let ?Inv = "\<lambda>m. F_a m = F \<and> g_a m = g \<and> length (x0_a m) = ?n"
  have half: "i + ?n div 2 < ?n" if "i < ?n div 2" for i
    using that by linarith
  consider "length F = 1" | "length F = 2" | "length F \<noteq> 1" "length F \<noteq> 2"
    by blast
  then show ?thesis
  proof cases
    case 1
    have "snd (run_threads (\<lambda>(b, t). compact_diagonal_solver (Some rule) dt steps ?n
                                        b threadsPerBlock t) ?cs ?m) =
            (if \<exists>c\<in>set ?cs. False then Some OutOfBounds else None)"
      by (rule run_threads_fault [where Inv = ?Inv])
         (use 1 inb in \<open>auto simp: compact_diagonal_solver_def lane_loop_some thread_id_lane
            reads_in_bounds_def Let_def\<close>)
    with 1 reg show ?thesis by (simp add: solve_cuda_diagonal)
  next
    case 2
    have "snd (run_threads (\<lambda>(b, t). compact_skew_symmetric_solver (Some rule) dt steps ?n
                                        b threadsPerBlock t) ?cs ?m) =
            (if \<exists>c\<in>set ?cs. False then Some OutOfBounds else None)"
      by (rule run_threads_fault [where Inv = ?Inv])
         (use 2 inb half in \<open>auto simp: compact_skew_symmetric_solver_def block_loop_some
            thread_id_lane reads_in_bounds_def Let_def\<close>)
    with 2 reg show ?thesis by (simp add: solve_cuda_block)
  next
    case 3
    have "snd (run_threads (\<lambda>(b, t). general_solver (Some rule) dt steps ?n
                                        b threadsPerBlock t) ?cs ?m) =
            (if \<exists>c\<in>set ?cs. False then Some OutOfBounds else None)"
      by (rule run_threads_fault [where Inv = ?Inv])
         (use 3 inb in \<open>auto simp: general_solver_def lane_loop_some thread_id_lane
            reads_in_bounds_def Let_def\<close>)
    with 3 reg show ?thesis by (simp add: solve_cuda_general)
  qed
qed

lemma h_methods_unknown:
  "name \<noteq> ''Euler'' \<Longrightarrow> name \<noteq> ''RK4'' \<Longrightarrow> h_methods name = None"
  by (simp add: h_methods_def)

lemma block_single_lane:
  assumes "length F = 2" and "length x0 \<le> 1"
  shows "solve_cuda F x0 g dt steps name = (\<lparr>F_a = F, x0_a = x0, g_a = g\<rparr>, None)"
proof -
  have "compact_skew_symmetric_solver (h_methods name) dt steps (length x0) b bd t
          \<lparr>F_a = F, x0_a = x0, g_a = g\<rparr> = Inr \<lparr>F_a = F, x0_a = x0, g_a = g\<rparr>" for b bd t
    using assms(2) by (simp add: compact_skew_symmetric_solver_def Let_def)
  then show ?thesis
    using assms(1) by (simp add: solve_cuda_block run_threads_noop split_beta)
qed

section \<open>Lanes that no thread reaches\<close>

lemma general_solver_writes:
  "general_solver method dt steps n b bd t m = Inr m' \<Longrightarrow> j \<noteq> lane (b * bd + t) \<Longrightarrow>
     x0_a m' ! j = x0_a m ! j"
  by (auto simp: general_solver_def thread_id_lane Let_def split: if_splits sum.splits)

lemma compact_diagonal_solver_writes:
  "compact_diagonal_solver method dt steps n b bd t m = Inr m' \<Longrightarrow> j \<noteq> lane (b * bd + t) \<Longrightarrow>
     x0_a m' ! j = x0_a m ! j"
  by (auto simp: compact_diagonal_solver_def thread_id_lane Let_def split: if_splits sum.splits)

lemma compact_skew_symmetric_solver_writes:
  "compact_skew_symmetric_solver method dt steps n b bd t m = Inr m' \<Longrightarrow>
     j \<noteq> lane (b * bd + t) \<Longrightarrow> j < n div 2 \<Longrightarrow> x0_a m' ! j = x0_a m ! j"
  by (auto simp: compact_skew_symmetric_solver_def thread_id_lane Let_def
           split: if_splits sum.splits)

lemma skipped_lane:
  assumes "2 ^ 31 \<le> j" and "j < 2 ^ 64 - 2 ^ 31"
    and "length F = 2 \<longrightarrow> j < length x0 div 2"
  shows "x0_a (fst (solve_cuda F x0 g dt steps name)) ! j = x0 ! j"
proof -
  let ?m = "\<lparr>F_a = F, x0_a = x0, g_a = g\<rparr>"
  let ?cs = "grid_threads (nat (blocks_of (length x0))) threadsPerBlock"
  let ?Inv = "\<lambda>m. x0_a m ! j = x0 ! j"
  have other: "j \<noteq> lane r" for r
    using lane_skipped [OF assms(1,2), of r] by simp
  have half: "j < length x0 div 2" if "length F = 2"
    using that assms(3) by simp
  consider "length F = 1" | "length F = 2" | "length F \<noteq> 1" "length F \<noteq> 2"
    by blast
  then show ?thesis
  proof cases
    case 1
    have "?Inv (fst (run_threads (\<lambda>(b, t). compact_diagonal_solver (h_methods name) dt steps
                       (length x0) b threadsPerBlock t) ?cs ?m))"
    proof (rule run_threads_inv [where Inv = ?Inv])
      show "?Inv ?m" by simp
    next
      fix c m m'
      assume inv: "?Inv m"
        and run: "(case c of (b, t) \<Rightarrow> compact_diagonal_solver (h_methods name) dt steps
                       (length x0) b threadsPerBlock t) m = Inr m'"
      obtain b t where "c = (b, t)" by (cases c)
      with run have "compact_diagonal_solver (h_methods name) dt steps (length x0) b threadsPerBlock t m =
                     Inr m'"
        by simp
      from compact_diagonal_solver_writes [OF this other] inv show "?Inv m'" by simp
    qed
    with 1 show ?thesis by (simp add: solve_cuda_diagonal)
  next
    case 2
    have "?Inv (fst (run_threads (\<lambda>(b, t). compact_skew_symmetric_solver (h_methods name) dt steps
                       (length x0) b threadsPerBlock t) ?cs ?m))"
    proof (rule run_threads_inv [where Inv = ?Inv])
      show "?Inv ?m" by simp
    next
      fix c m m'
      assume inv: "?Inv m"
        and run: "(case c of (b, t) \<Rightarrow> compact_skew_symmetric_solver (h_methods name) dt steps
                       (length x0) b threadsPerBlock t) m = Inr m'"
      obtain b t where "c = (b, t)" by (cases c)
      with run have "compact_skew_symmetric_solver (h_methods name) dt steps (length x0) b threadsPerBlock t m =
                     Inr m'"
        by simp
      from compact_skew_symmetric_solver_writes [OF this other half [OF 2]] inv show "?Inv m'" by simp
    qed
    with 2 show ?thesis by (simp add: solve_cuda_block)
  next
    case 3
    have "?Inv (fst (run_threads (\<lambda>(b, t). general_solver (h_methods name) dt steps
                       (length x0) b threadsPerBlock t) ?cs ?m))"
    proof (rule run_threads_inv [where Inv = ?Inv])
      show "?Inv ?m" by simp
    next
      fix c m m'
      assume inv: "?Inv m"
        and run: "(case c of (b, t) \<Rightarrow> general_solver (h_methods name) dt steps
                       (length x0) b threadsPerBlock t) m = Inr m'"
      obtain b t where "c = (b, t)" by (cases c)
      with run have "general_solver (h_methods name) dt steps (length x0) b threadsPerBlock t m =
                     Inr m'"
        by simp
      from general_solver_writes [OF this other] inv show "?Inv m'" by simp
    qed
    with 3 show ?thesis by (simp add: solve_cuda_general)
  qed
qed

lemma columns_replicate: "0 < n \<Longrightarrow> columns (replicate n row) = length row"
  by (cases n) (simp_all add: columns_def)

lemma length_concat_replicate: "length (concat (replicate n row)) = n * length row"
  by (induction n) simp_all

lemma diagonal_offset_bound:
  assumes "i < (n::nat)"
  shows "i * n + i < n * n"
proof -
  have "i * n + i < i * n + n" using assms by simp
  also have "\<dots> = Suc i * n" by simp
  also have "\<dots> \<le> n * n" using assms by (intro mult_le_mono1) simp
  finally show ?thesis .
qed

lemma square_in_bounds:
  assumes "0 < n"
  shows "reads_in_bounds (replicate n (replicate n c)) n (replicate n d)"
  using assms
  by (simp add: reads_in_bounds_def offset_def columns_replicate length_concat_replicate
      diagonal_offset_bound)



section \<open>The claims below the width of the thread index\<close>

text \<open>
  The General case on a rectangular \<open>F\<close> with its diagonal entries, for a state vector of
  at most \<open>2^31\<close> lanes: the call ends without a fault and lane \<open>i\<close> holds the lane loop
  of the specification on \<open>F[i][i]\<close>, \<open>g[i]\<close> and \<open>x0[i]\<close>. The Compact-Diagonal case
  under the same bound is the lemma \<open>diagonal_solve\<close> above.
\<close>

lemma general_lanes_bounded:
  assumes "length F \<noteq> 1" and "length F \<noteq> 2"
    and "\<forall>row\<in>set F. length row = length (F ! 0)"
    and "length g = length x0"
    and "\<forall>i<length x0. i < length F \<and> i < length (F ! i)"
    and "h_methods name = Some rule"
    and "length x0 \<le> 2 ^ 31"
  shows "solve_cuda F x0 g dt steps name =
           (\<lparr>F_a = F,
             x0_a = map (\<lambda>i. lane_spec rule (F ! i ! i) (g ! i) dt steps (x0 ! i)) [0..<length x0],
             g_a = g\<rparr>, None)"
proof -
  have "offset F i i < length (concat F)" "concat F ! offset F i i = F ! i ! i"
    if "i < length x0" for i
    using that assms(5) diagonal_entry [OF assms(3), of i] by simp_all
  then show ?thesis
    using general_solve [of F x0 g name rule dt steps] assms(1,2,4,6,7) by simp
qed

text \<open>
  The Compact Block case for an even \<open>N\<close> of at most \<open>2^32\<close>: pair \<open>i\<close> of the result is
  the pair loop of the specification on the pair \<open>(x0[i], x0[i + N/2])\<close>.
\<close>

lemma block_pairs_bounded:
  assumes "length F = 2" and "1 < length (F ! 0)" and "1 < length (F ! 1)"
    and "even (length x0)"
    and "length g = length x0"
    and "h_methods name = Some rule"
    and "length x0 \<le> 2 ^ 32"
  shows "solve_cuda F x0 g dt steps name =
           (\<lparr>F_a = F,
             x0_a = map (\<lambda>i. if i < length x0 div 2 then
                              fst (pair_spec rule (F ! 0 ! 0) (F ! 0 ! 1) (F ! 1 ! 0) (F ! 1 ! 1)
                                     (g ! i) (g ! (i + length x0 div 2)) dt steps
                                     (x0 ! i, x0 ! (i + length x0 div 2)))
                            else
                              snd (pair_spec rule (F ! 0 ! 0) (F ! 0 ! 1) (F ! 1 ! 0) (F ! 1 ! 1)
                                     (g ! (i - length x0 div 2)) (g ! i) dt steps
                                     (x0 ! (i - length x0 div 2), x0 ! i))) [0..<length x0],
             g_a = g\<rparr>, None)"
proof -
  have "2 * (length x0 div 2) = length x0"
    using assms(4) by simp
  then have "i < 2 * (length x0 div 2)" if "i < length x0" for i
    using that by simp
  then show ?thesis
    using block_solve [OF assms(1,2,3) _ assms(6,7), of g dt steps] assms(5) by simp
qed

section \<open>The claims\<close>

text \<open>
  C3 (integration rules). For all inputs the Euler rule returns \<open>F_value * g_value * dt\<close>
  and the RK4 rule returns \<open>(f1 + 2*f2 + 2*f3 + f4) / 6\<close> with the four stages of the
  specification; both are functions of their arguments alone, and neither result depends
  on \<open>x_current\<close>. Stated over the reals: the sequence of operations is the one of the
  source, rounding is not modelled.
\<close>

theorem integration_rules:
  "euler_method F_value x_current g_value dt = euler_spec F_value g_value dt \<and>
   rk4_method F_value x_current g_value dt = rk4_spec F_value g_value dt \<and>
   euler_method F_value x_current g_value dt = euler_method F_value x_other g_value dt \<and>
   rk4_method F_value x_current g_value dt = rk4_method F_value x_other g_value dt"
  by (simp add: euler_method_def euler_spec_def rk4_method_def rk4_spec_def)

text \<open>
  C1 (General case). The claim speaks of every state vector and every lane \<open>i\<close> in
  \<open>[0, N)\<close>. The kernel stores the thread index in an \<open>int\<close> and compares it with the
  \<open>size_t\<close> \<open>x0_size\<close>: the thread of lane \<open>2^31\<close> computes \<open>tid = -2^31\<close>, which the
  comparison reads as \<open>2^64 - 2^31\<close>, so the guard fails and the lane is left as it was.
  At the leading dimension \<open>2^31 + 1\<close>, with every entry of \<open>F\<close> equal to 1, \<open>x0\<close> all
  zeros, \<open>g\<close> all ones, \<open>dt = 1\<close> and one Euler step, the call ends without a fault,
  lane \<open>2^31\<close> of \<open>x0\<close> is still 0, and the loop of the claim on \<open>F[i][i]\<close>, \<open>g[i]\<close>,
  \<open>x0[i]\<close> gives 1 for that lane. (No lane at or above \<open>2^31\<close> is ever written, whatever
  \<open>F\<close> is: lemma \<open>skipped_lane\<close>.)
\<close>

theorem general_case_large_input:
  "snd (solve_cuda (replicate (2 ^ 31 + 1) (replicate (2 ^ 31 + 1) 1))
          (replicate (2 ^ 31 + 1) 0) (replicate (2 ^ 31 + 1) 1) 1 1 ''Euler'') = None \<and>
   x0_a (fst (solve_cuda (replicate (2 ^ 31 + 1) (replicate (2 ^ 31 + 1) 1))
          (replicate (2 ^ 31 + 1) 0) (replicate (2 ^ 31 + 1) 1) 1 1 ''Euler'')) ! (2 ^ 31) = 0 \<and>
   lane_spec euler_method
     (replicate (2 ^ 31 + 1) (replicate (2 ^ 31 + 1) 1) ! (2 ^ 31) ! (2 ^ 31))
     (replicate (2 ^ 31 + 1) 1 ! (2 ^ 31)) 1 1 (replicate (2 ^ 31 + 1) 0 ! (2 ^ 31)) = 1"
proof -
  let ?n = "2 ^ 31 + 1 :: nat"
  let ?F = "replicate ?n (replicate ?n (1::real))"
  let ?x0 = "replicate ?n (0::real)"
  let ?g = "replicate ?n (1::real)"
  have "reads_in_bounds ?F (length ?x0) ?g"
    using square_in_bounds [of ?n 1 1] by simp
  then have "snd (solve_cuda ?F ?x0 ?g 1 1 ''Euler'') = None"
    by (intro registered_no_fault [of _ euler_method]) (simp add: h_methods_def)
  moreover have "x0_a (fst (solve_cuda ?F ?x0 ?g 1 1 ''Euler'')) ! (2 ^ 31) = ?x0 ! (2 ^ 31)"
    by (rule skipped_lane) simp_all
  moreover have "lane_spec euler_method (?F ! (2 ^ 31) ! (2 ^ 31)) (?g ! (2 ^ 31)) 1 1
                   (?x0 ! (2 ^ 31)) = 1"
    by (simp add: lane_spec_def euler_method_def)
  ultimately show ?thesis by simp
qed

text \<open>
  C4 (Compact-Diagonal case). The claim speaks of every lane \<open>i\<close> in \<open>[0, N)\<close>. The kernel
  has the same \<open>int tid\<close> as the General one, and skips every lane from \<open>2^31\<close> on. With
  \<open>F = [[1]]\<close>, \<open>x0\<close> of \<open>2^31 + 1\<close> zeros, \<open>g\<close> of as many ones, \<open>dt = 1\<close> and one
  Euler step, the call ends without a fault, lane \<open>2^31\<close> of \<open>x0\<close> is still 0, and the
  loop of the claim on \<open>F[0][0]\<close>, \<open>g[i]\<close>, \<open>x0[i]\<close> gives 1 for that lane.
\<close>

theorem compact_diagonal_large_input:
  "snd (solve_cuda [[1]] (replicate (2 ^ 31 + 1) 0) (replicate (2 ^ 31 + 1) 1) 1 1 ''Euler'') =
     None \<and>
   x0_a (fst (solve_cuda [[1]] (replicate (2 ^ 31 + 1) 0) (replicate (2 ^ 31 + 1) 1) 1 1
          ''Euler'')) ! (2 ^ 31) = 0 \<and>
   lane_spec euler_method ([[1]] ! 0 ! 0) (replicate (2 ^ 31 + 1) 1 ! (2 ^ 31)) 1 1
     (replicate (2 ^ 31 + 1) 0 ! (2 ^ 31)) = 1"
proof -
  let ?n = "2 ^ 31 + 1 :: nat"
  let ?x0 = "replicate ?n (0::real)"
  let ?g = "replicate ?n (1::real)"
  have "reads_in_bounds [[1::real]] (length ?x0) ?g"
    by (simp add: reads_in_bounds_def offset_def)
  then have "snd (solve_cuda [[1]] ?x0 ?g 1 1 ''Euler'') = None"
    by (intro registered_no_fault [of _ euler_method]) (simp add: h_methods_def)
  moreover have "x0_a (fst (solve_cuda [[1]] ?x0 ?g 1 1 ''Euler'')) ! (2 ^ 31) = ?x0 ! (2 ^ 31)"
    by (rule skipped_lane) simp_all
  moreover have "lane_spec euler_method ([[1]] ! 0 ! 0) (?g ! (2 ^ 31)) 1 1 (?x0 ! (2 ^ 31)) = 1"
    by (simp add: lane_spec_def euler_method_def)
  ultimately show ?thesis by simp
qed

text \<open>
  C2 (Compact Block case). The claim speaks of every even \<open>N\<close> and every pair \<open>i\<close> in
  \<open>[0, N/2)\<close>. The kernel has the same \<open>int tid\<close> as the other two, and skips every pair
  from \<open>2^31\<close> on. With \<open>F = [[1, 1], [1, 1]]\<close>, \<open>x0\<close> of \<open>2^32 + 2\<close> zeros, \<open>g\<close> of as
  many ones, \<open>dt = 1\<close> and one Euler step, pair \<open>2^31\<close> is a pair of the claim, the call
  ends without a fault, \<open>x0[2^31]\<close> is still 0, and the first line of the claim gives 2
  for it.
\<close>

theorem compact_block_large_input:
  "snd (solve_cuda [[1, 1], [1, 1]] (replicate (2 ^ 32 + 2) 0) (replicate (2 ^ 32 + 2) 1) 1 1
          ''Euler'') = None \<and>
   x0_a (fst (solve_cuda [[1, 1], [1, 1]] (replicate (2 ^ 32 + 2) 0) (replicate (2 ^ 32 + 2) 1)
          1 1 ''Euler'')) ! (2 ^ 31) = 0 \<and>
   fst (pair_spec euler_method 1 1 1 1
          (replicate (2 ^ 32 + 2) 1 ! (2 ^ 31))
          (replicate (2 ^ 32 + 2) 1 ! (2 ^ 31 + (2 ^ 32 + 2) div 2)) 1 1
          (replicate (2 ^ 32 + 2) 0 ! (2 ^ 31),
           replicate (2 ^ 32 + 2) 0 ! (2 ^ 31 + (2 ^ 32 + 2) div 2))) = (2::real)"
proof -
  let ?n = "2 ^ 32 + 2 :: nat"
  let ?F = "[[1, 1], [1, 1::real]]"
  let ?x0 = "replicate ?n (0::real)"
  let ?g = "replicate ?n (1::real)"
  have "reads_in_bounds ?F (length ?x0) ?g"
    by (simp add: reads_in_bounds_def offset_def columns_def)
  then have "snd (solve_cuda ?F ?x0 ?g 1 1 ''Euler'') = None"
    by (intro registered_no_fault [of _ euler_method]) (simp add: h_methods_def)
  moreover have "x0_a (fst (solve_cuda ?F ?x0 ?g 1 1 ''Euler'')) ! (2 ^ 31) = ?x0 ! (2 ^ 31)"
    by (rule skipped_lane) simp_all
  moreover have "fst (pair_spec euler_method 1 1 1 1 (?g ! (2 ^ 31)) (?g ! (2 ^ 31 + ?n div 2)) 1 1
                       (?x0 ! (2 ^ 31), ?x0 ! (2 ^ 31 + ?n div 2))) = (2::real)"
    by (simp add: pair_spec_def pair_step_spec_def euler_method_def)
  ultimately show ?thesis by simp
qed



text \<open>
  C8 (frame condition). In every call, whatever the structural case, the rule, the step
  count and the shapes, and whether or not a thread faults, the memory after the call
  holds the coupling matrix \<open>F\<close> and the forcing vector \<open>g\<close> unchanged; the state vector
  keeps its length. The memory of the model is these three tensors: nothing is created
  or destroyed.
\<close>

theorem frame_condition:
  "F_a (fst (solve_cuda F x0 g dt steps name)) = F \<and>
   g_a (fst (solve_cuda F x0 g dt steps name)) = g \<and>
   length (x0_a (fst (solve_cuda F x0 g dt steps name))) = length x0"
proof -
  let ?m = "\<lparr>F_a = F, x0_a = x0, g_a = g\<rparr>"
  let ?cs = "grid_threads (nat (blocks_of (length x0))) threadsPerBlock"
  consider "length F = 1" | "length F = 2" | "length F \<noteq> 1" "length F \<noteq> 2"
    by blast
  then show ?thesis
  proof cases
    case 1
    have "F_a m' = F_a m \<and> g_a m' = g_a m \<and> length (x0_a m') = length (x0_a m)"
      if "(case c of (b, t) \<Rightarrow> compact_diagonal_solver (h_methods name) dt steps (length x0)
             b threadsPerBlock t) m = Inr m'" for c m m'
      using that by (cases c) (auto dest!: compact_diagonal_solver_frame)
    from run_threads_frame [of _ ?cs ?m, OF this] 1
    show ?thesis by (simp add: solve_cuda_diagonal)
  next
    case 2
    have "F_a m' = F_a m \<and> g_a m' = g_a m \<and> length (x0_a m') = length (x0_a m)"
      if "(case c of (b, t) \<Rightarrow> compact_skew_symmetric_solver (h_methods name) dt steps (length x0)
             b threadsPerBlock t) m = Inr m'" for c m m'
      using that by (cases c) (auto dest!: compact_skew_symmetric_solver_frame)
    from run_threads_frame [of _ ?cs ?m, OF this] 2
    show ?thesis by (simp add: solve_cuda_block)
  next
    case 3
    have "F_a m' = F_a m \<and> g_a m' = g_a m \<and> length (x0_a m') = length (x0_a m)"
      if "(case c of (b, t) \<Rightarrow> general_solver (h_methods name) dt steps (length x0)
             b threadsPerBlock t) m = Inr m'" for c m m'
      using that by (cases c) (auto dest!: general_solver_frame)
    from run_threads_frame [of _ ?cs ?m, OF this] 3
    show ?thesis by (simp add: solve_cuda_general)
  qed
qed

text \<open>
  C5 (unknown method name), as amended. \<open>solve_cuda\<close> does not validate the name: for
  every name other than \<open>"Euler"\<close> and \<open>"RK4"\<close> the lookup yields an empty rule and the
  kernel is launched with it. In every such call the memory, \<open>x0\<close> included, is left as it
  was. When the reads of the working threads are in bounds, the call ends without any fault
  if no thread invokes the rule (\<open>steps \<le> 0\<close>, or no working thread), and otherwise the
  first working thread faults on the empty rule, inside the launch.
\<close>

theorem unknown_method_unvalidated:
  assumes "name \<noteq> ''Euler''" and "name \<noteq> ''RK4''"
  shows "fst (solve_cuda F x0 g dt steps name) = \<lparr>F_a = F, x0_a = x0, g_a = g\<rparr> \<and>
         (reads_in_bounds F (length x0) g \<longrightarrow>
            snd (solve_cuda F x0 g dt steps name) =
              (if 0 < steps \<and> 0 < working_lanes F (length x0)
               then Some BadFunctionCall else None))"
proof -
  have "h_methods name = None \<or> steps \<le> 0"
    using assms by (simp add: h_methods_unknown)
  then show ?thesis
    using idle_memory idle_fault by blast
qed

text \<open>
  An instance of C5 as amended: an unregistered name and three steps.
\<close>

theorem unknown_method_unvalidated_witness:
  "fst (solve_cuda [[1]] [5, 6] [7, 8] 1 3 ''Midpoint'') =
     \<lparr>F_a = [[1]], x0_a = [5, 6], g_a = [7, 8]\<rparr> \<and>
   snd (solve_cuda [[1]] [5, 6] [7, 8] 1 3 ''Midpoint'') = Some BadFunctionCall"
  using unknown_method_unvalidated [of "''Midpoint''" "[[1]]" "[5, 6]" "[7, 8]" 1 3]
  by (simp add: reads_in_bounds_def working_lanes_def offset_def blocks_of_def
      threadsPerBlock_def to_int_def)

text \<open>
  The claim as stated fails: with an unregistered name and no step to take, the call ends
  without any error.
\<close>

theorem unknown_method_counterexample:
  "h_methods ''Midpoint'' = None \<and>
   solve_cuda [[1]] [5] [7] 1 0 ''Midpoint'' = (\<lparr>F_a = [[1]], x0_a = [5], g_a = [7]\<rparr>, None)"
  using idle_solve [of "''Midpoint''" 0 "[[1]]" "[5]" "[7]" 1]
  by (simp add: reads_in_bounds_def h_methods_def offset_def)

text \<open>
  C6 (shapes), as amended. \<open>solve_cuda\<close> checks no shape before the launch and has no
  shape error. With a resolved rule, a call in which every address that a lane computes
  falls inside the buffers of \<open>g\<close> and \<open>F\<close> ends without a fault, whatever the shapes:
  so it does when \<open>g\<close> is longer than \<open>x0\<close>, when \<open>N\<close> is odd in the Compact Block
  case, and in the General case with an \<open>F\<close> smaller than \<open>N x N\<close> whose buffer still
  holds the addresses of the diagonal reads.
\<close>

theorem shapes_unchecked:
  assumes "h_methods name = Some rule" and "reads_in_bounds F (length x0) g"
  shows "snd (solve_cuda F x0 g dt steps name) = None"
  using assms by (rule registered_no_fault)

text \<open>
  Three instances of C6 as amended: \<open>g\<close> longer than \<open>x0\<close>; an odd \<open>N\<close> in the Compact
  Block case; a 4 x 2 matrix in the General case with \<open>N = 3\<close>, whose diagonal reads are
  the elements 0, 3 and 6 of the 8 of its buffer.
\<close>

theorem shapes_unchecked_witness:
  "snd (solve_cuda [[1]] [0] [1, 1] 1 1 ''Euler'') = None \<and>
   snd (solve_cuda [[1, 2], [3, 4]] [1, 2, 9] [1, 2, 3] 1 1 ''Euler'') = None \<and>
   snd (solve_cuda [[1, 2], [3, 4], [5, 6], [7, 8]] [0, 0, 0] [1, 1, 1] 1 1 ''Euler'') = None"
proof -
  have reg: "h_methods ''Euler'' = Some euler_method"
    by (simp add: h_methods_def)
  have a: "reads_in_bounds [[1::real]] (length [0::real]) [1, 1::real]"
    by (simp add: reads_in_bounds_def offset_def)
  have b: "reads_in_bounds [[1, 2], [3, 4::real]] (length [1, 2, 9::real]) [1, 2, 3::real]"
    by (simp add: reads_in_bounds_def offset_def columns_def)
  have c: "reads_in_bounds [[1, 2], [3, 4], [5, 6], [7, 8::real]] (length [0, 0, 0::real])
             [1, 1, 1::real]"
    by (auto simp: reads_in_bounds_def offset_def columns_def)
  from shapes_unchecked [OF reg a] shapes_unchecked [OF reg b] shapes_unchecked [OF reg c]
  show ?thesis by simp
qed

text \<open>
  The claim as stated fails: \<open>x0\<close> and \<open>g\<close> differ in length, and the call ends without
  any error, with \<open>x0\<close> updated.
\<close>

theorem shape_mismatch_counterexample:
  "length [0::real] \<noteq> length [1, 1::real] \<and>
   solve_cuda [[1]] [0] [1, 1] 1 1 ''Euler'' =
     (\<lparr>F_a = [[1]], x0_a = [1], g_a = [1, 1]\<rparr>, None)"
  using diagonal_solve [of "[[1]]" "[0]" "[1, 1]" "''Euler''" euler_method 1 1]
  by (simp add: h_methods_def lane_spec_def euler_method_def)

text \<open>
  C7 (step count), as amended. \<open>solve_cuda\<close> does not validate the step count: for every
  step count that is negative or zero, every name and every structural case, a call whose
  reads are in bounds ends without any error and leaves the memory, \<open>x0\<close> included, as it
  was.
\<close>

theorem nonpositive_steps_noop:
  assumes "steps \<le> 0" and "reads_in_bounds F (length x0) g"
  shows "solve_cuda F x0 g dt steps name = (\<lparr>F_a = F, x0_a = x0, g_a = g\<rparr>, None)"
  using idle_solve [of name steps F x0 g dt] assms by simp

text \<open>
  An instance of C7 as amended: minus three steps in the Compact Block case.
\<close>

theorem nonpositive_steps_noop_witness:
  "solve_cuda [[1, 2], [3, 4]] [1, 2, 3, 4] [5, 6, 7, 8] 1 (- 3) ''RK4'' =
     (\<lparr>F_a = [[1, 2], [3, 4]], x0_a = [1, 2, 3, 4], g_a = [5, 6, 7, 8]\<rparr>, None)"
  using nonpositive_steps_noop [of "- 3" "[[1, 2], [3, 4]]" "[1, 2, 3, 4]" "[5, 6, 7, 8]" 1 "''RK4''"]
  by (simp add: reads_in_bounds_def offset_def columns_def)

text \<open>
  The claim as stated fails: a negative step count is no error.
\<close>

theorem negative_steps_counterexample:
  "solve_cuda [[1]] [5] [7] 1 (- 1) ''Euler'' = (\<lparr>F_a = [[1]], x0_a = [5], g_a = [7]\<rparr>, None)"
  using idle_solve [of "''Euler''" "- 1" "[[1]]" "[5]" "[7]" 1]
  by (simp add: reads_in_bounds_def offset_def)

text \<open>
  C9 (single lane), as amended. For \<open>N = 1\<close> and a resolved rule, the General case and
  the Compact-Diagonal case with the same coupling value \<open>F[0][0]\<close> give the same
  \<open>x0[0]\<close>, the result of the lane loop on that value. The Compact Block case with
  \<open>N = 1\<close> has no pair: no thread works and \<open>x0[0]\<close> is left as it was.
\<close>

theorem single_lane:
  assumes "length Fg \<noteq> 1" and "length Fg \<noteq> 2"
    and "0 < length Fg" and "0 < length (Fg ! 0)"
    and "length Fd = 1" and "0 < length (Fd ! 0)"
    and "Fd ! 0 ! 0 = Fg ! 0 ! 0"
    and "length Fb = 2"
    and "h_methods name = Some rule"
  shows "x0_a (fst (solve_cuda Fg [x] [gv] dt steps name)) =
           [lane_spec rule (Fg ! 0 ! 0) gv dt steps x] \<and>
         x0_a (fst (solve_cuda Fd [x] [gv] dt steps name)) =
           [lane_spec rule (Fg ! 0 ! 0) gv dt steps x] \<and>
         solve_cuda Fb [x] [gv] dt steps name = (\<lparr>F_a = Fb, x0_a = [x], g_a = [gv]\<rparr>, None)"
proof (intro conjI)
  show "x0_a (fst (solve_cuda Fg [x] [gv] dt steps name)) =
          [lane_spec rule (Fg ! 0 ! 0) gv dt steps x]"
    using general_solve [of Fg "[x]" "[gv]" name rule dt steps] assms(1,2,9)
      first_entry [OF assms(3,4)]
    by simp
  show "x0_a (fst (solve_cuda Fd [x] [gv] dt steps name)) =
          [lane_spec rule (Fg ! 0 ! 0) gv dt steps x]"
    using diagonal_solve [of Fd "[x]" "[gv]" name rule dt steps] assms(5,6,7,9) by simp
  show "solve_cuda Fb [x] [gv] dt steps name = (\<lparr>F_a = Fb, x0_a = [x], g_a = [gv]\<rparr>, None)"
    using assms(8) by (intro block_single_lane) simp_all
qed

text \<open>
  An instance of C9 as amended: coupling value 2, two Euler steps.
\<close>

theorem single_lane_witness:
  "x0_a (fst (solve_cuda [[2, 0, 0], [0, 5, 0], [0, 0, 7]] [1] [3] 1 2 ''Euler'')) = [13] \<and>
   x0_a (fst (solve_cuda [[2]] [1] [3] 1 2 ''Euler'')) = [13] \<and>
   solve_cuda [[2, 0], [0, 0]] [1] [3] 1 2 ''Euler'' =
     (\<lparr>F_a = [[2, 0], [0, 0]], x0_a = [1], g_a = [3]\<rparr>, None)"
  using single_lane [of "[[2, 0, 0], [0, 5, 0], [0, 0, 7]]" "[[2]]" "[[2, 0], [0, 0]]"
      "''Euler''" euler_method 1 3 1 2]
  by (simp add: h_methods_def lane_spec_def euler_method_def eval_nat_numeral)

text \<open>
  The claim as stated fails: with the same coupling value 2 in each variant, the Compact
  Block case leaves \<open>x0[0] = 1\<close> where the other two compute 13.
\<close>

theorem single_lane_counterexample:
  "x0_a (fst (solve_cuda [[2, 0], [0, 0]] [1] [3] 1 2 ''Euler'')) = [1] \<and>
   x0_a (fst (solve_cuda [[2]] [1] [3] 1 2 ''Euler'')) = [13] \<and>
   x0_a (fst (solve_cuda [[2, 0, 0], [0, 5, 0], [0, 0, 7]] [1] [3] 1 2 ''Euler'')) = [13] \<and>
   x0_a (fst (solve_cuda [[2, 0], [0, 0]] [1] [3] 1 2 ''Euler'')) \<noteq>
   x0_a (fst (solve_cuda [[2]] [1] [3] 1 2 ''Euler''))"
proof -
  have lane: "lane_spec euler_method 2 3 1 2 1 = 13"
    by (simp add: lane_spec_def euler_method_def eval_nat_numeral)
  have b: "x0_a (fst (solve_cuda [[2, 0], [0, 0]] [1] [3] 1 2 ''Euler'')) = [1]"
    using block_single_lane [of "[[2, 0], [0, 0]]" "[1]" "[3]" 1 2 "''Euler''"] by simp
  have d: "x0_a (fst (solve_cuda [[2]] [1] [3] 1 2 ''Euler'')) = [13]"
    using diagonal_solve [of "[[2]]" "[1]" "[3]" "''Euler''" euler_method 1 2] lane
    by (simp add: h_methods_def)
  have g: "x0_a (fst (solve_cuda [[2, 0, 0], [0, 5, 0], [0, 0, 7]] [1] [3] 1 2 ''Euler'')) = [13]"
    using general_solve [of "[[2, 0, 0], [0, 5, 0], [0, 0, 7]]" "[1]" "[3]" "''Euler''"
        euler_method 1 2] lane
    by (simp add: h_methods_def offset_def)
  from b d g show ?thesis by simp
qed

end
